theory Spec2Isabelle
  imports Complex_Main "HOL-Library.AList" "HOL-Library.Char_ord" "HOL-Library.List_Lexorder"
begin

section \<open>Data model of the queue manager (src/backend/queue.js)\<close>

text \<open>
  A JavaScript string is a sequence of UTF-16 code units. The prompt, which comes from
  the request and is trimmed, is kept as such; the ids and the event names are ASCII and
  are written as \<open>string\<close>.
\<close>

type_synonym js_string = "int list"

definition ascii :: "string \<Rightarrow> js_string" where
  "ascii s = map of_char s"

text \<open>
  A task is the object literal built in \<open>createTask\<close>. Timestamps are the integers
  returned by \<open>Date.now()\<close>; fields that start as \<open>null\<close> are options. The field
  \<open>id\<close> is called \<open>task_id\<close> here.
\<close>

datatype task_state = Pending | Processing | Retrying | Completed | Failed

record task_error =
  code :: string
  message :: string

text \<open>The error object thrown by the image client: every property may be missing.\<close>

record exec_error =
  err_code :: "string option"
  err_message :: "string option"
  isRetryable :: "bool option"

record gen_result =
  imageUrl :: string
  generatedAt :: int
  processingTime :: int
  model :: string

record task =
  task_id :: string
  prompt :: js_string
  state :: task_state
  createdAt :: int
  startedAt :: "int option"
  completedAt :: "int option"
  result :: "gen_result option"
  error :: "task_error option"
  retryCount :: nat
  maxRetries :: nat
  nextRetryAt :: "int option"
  progress :: int
  estimatedWaitTime :: int

record stats =
  pending :: nat
  processing :: nat
  retrying :: nat
  completed :: nat
  failed :: nat
  total :: nat

text \<open>
  The data of an SSE frame, before \<open>JSON.stringify\<close>: the value is serialised when
  it is sent, so a payload is a copy of the task as it was at that moment.
\<close>

datatype payload =
    PTask task
  | PProgress string int
  | PRetryScheduled string nat nat "int option" "task_error option"
  | PCancelled string
  | PStats stats
  | PSnapshot "task list"

text \<open>\<open>sendToClient\<close> performs two writes on the response: the event line and the data line.\<close>

datatype chunk = EventLine string | DataLine payload

text \<open>
  The state of the \<open>QueueManager\<close> instance. \<open>tasks\<close> is the JavaScript \<open>Map\<close>, kept
  in insertion order (\<open>AList.update\<close> replaces the value of a present key in place and
  appends an absent one, as \<open>Map.set\<close> does). \<open>sseClients\<close> is the \<open>Set\<close> of response
  objects, in insertion order, each response named by a number. \<open>wire\<close> records every
  \<open>res.write\<close> the queue manager has made so far, in order, with the response it was made
  on. The writes of a Node response return normally, also when its connection has
  closed; that case is taken up in the section on broadcasting while a connection is
  closed.
\<close>

record queue =
  tasks :: "(string \<times> task) list"
  currentlyProcessing :: int
  sseClients :: "nat list"
  wire :: "(nat \<times> chunk) list"

definition MAX_CONCURRENT :: int where
  "MAX_CONCURRENT = 5"

definition MAX_QUEUE_SIZE :: nat where
  "MAX_QUEUE_SIZE = 100"

definition BASE_RETRY_DELAY :: rat where
  "BASE_RETRY_DELAY = 2000"

definition MAX_RETRY_DELAY :: rat where
  "MAX_RETRY_DELAY = 60000"

definition MAX_RETRIES :: nat where
  "MAX_RETRIES = 5"

definition constructor :: queue where
  "constructor = \<lparr>tasks = [], currentlyProcessing = 0, sseClients = [], wire = []\<rparr>"

section \<open>Broadcasting\<close>

definition sendToClient :: "nat \<Rightarrow> string \<Rightarrow> payload \<Rightarrow> queue \<Rightarrow> queue" where
  "sendToClient res ev d q = q\<lparr>wire := wire q @ [(res, EventLine ev), (res, DataLine d)]\<rparr>"

definition broadcast :: "string \<Rightarrow> payload \<Rightarrow> queue \<Rightarrow> queue" where
  "broadcast ev d q = foldl (\<lambda>q' client. sendToClient client ev d q') q (sseClients q)"

fun bump :: "task_state \<Rightarrow> stats \<Rightarrow> stats" where
  "bump Pending s = s\<lparr>pending := pending s + 1\<rparr>"
| "bump Processing s = s\<lparr>processing := processing s + 1\<rparr>"
| "bump Retrying s = s\<lparr>retrying := retrying s + 1\<rparr>"
| "bump Completed s = s\<lparr>completed := completed s + 1\<rparr>"
| "bump Failed s = s\<lparr>failed := failed s + 1\<rparr>"

definition getStats :: "queue \<Rightarrow> stats" where
  "getStats q =
     foldl (\<lambda>s t. bump (state t) s)
       \<lparr>pending = 0, processing = 0, retrying = 0, completed = 0, failed = 0,
        total = length (tasks q)\<rparr>
       (map snd (tasks q))"

definition broadcastStats :: "queue \<Rightarrow> queue" where
  "broadcastStats q = broadcast ''queue_stats'' (PStats (getStats q)) q"

text \<open>\<open>Array.prototype.sort\<close> is stable, and so is \<open>sort_key\<close>; newest first.\<close>

definition getAllTasks :: "queue \<Rightarrow> task list" where
  "getAllTasks q = sort_key (\<lambda>t. - createdAt t) (map snd (tasks q))"

definition getTask :: "string \<Rightarrow> queue \<Rightarrow> task option" where
  "getTask taskId q = map_of (tasks q) taskId"

section \<open>Task operations\<close>

text \<open>
  \<open>String.prototype.trim\<close> removes the code units of ECMAScript's \<open>WhiteSpace\<close> and
  \<open>LineTerminator\<close> from both ends: tab, line feed, vertical tab, form feed, carriage
  return, space, no-break space, U+1680, U+2000 to U+200A, U+2028, U+2029, U+202F, U+205F,
  U+3000 and U+FEFF.
\<close>

definition is_space :: "int \<Rightarrow> bool" where
  "is_space c =
     (c \<in> set [0x09, 0x0A, 0x0B, 0x0C, 0x0D, 0x20, 0xA0, 0x1680, 0x2000, 0x2001, 0x2002,
               0x2003, 0x2004, 0x2005, 0x2006, 0x2007, 0x2008, 0x2009, 0x200A, 0x2028, 0x2029,
               0x202F, 0x205F, 0x3000, 0xFEFF])"

definition trim :: "js_string \<Rightarrow> js_string" where
  "trim s = rev (dropWhile is_space (rev (dropWhile is_space s)))"

definition count_state :: "task_state \<Rightarrow> queue \<Rightarrow> nat" where
  "count_state st q = length (filter (\<lambda>t. state t = st) (map snd (tasks q)))"

definition calculateEstimatedWait :: "queue \<Rightarrow> int" where
  "calculateEstimatedWait q =
     (let pendingCount = count_state Pending q;
          processingCount = count_state Processing q;
          effectiveQueueLength =
            int pendingCount + \<lceil>rat_of_nat processingCount / rat_of_int MAX_CONCURRENT\<rceil>
      in effectiveQueueLength * 30000)"

datatype queue_error = QueueFull

text \<open>
  \<open>createTask\<close> takes what the environment supplies as arguments: the string returned by
  \<open>uuidv4()\<close> and the value of \<open>Date.now()\<close>. The \<open>throw\<close> is the left summand.
\<close>

definition createTask :: "js_string \<Rightarrow> string \<Rightarrow> int \<Rightarrow> queue \<Rightarrow> queue_error + (task \<times> queue)" where
  "createTask prompt_in uuid now q =
     (if length (tasks q) \<ge> MAX_QUEUE_SIZE then Inl QueueFull
      else
        let t = \<lparr>task_id = ''task_'' @ take 8 uuid,
                 prompt = trim prompt_in,
                 state = Pending,
                 createdAt = now,
                 startedAt = None,
                 completedAt = None,
                 result = None,
                 error = None,
                 retryCount = 0,
                 maxRetries = MAX_RETRIES,
                 nextRetryAt = None,
                 progress = 0,
                 estimatedWaitTime = calculateEstimatedWait q\<rparr>;
            q1 = q\<lparr>tasks := AList.update (task_id t) t (tasks q)\<rparr>
        in Inr (t, broadcastStats (broadcast ''task_submitted'' (PTask t) q1)))"

text \<open>The loop over \<open>this.tasks.values()\<close> with its running \<open>oldestPending\<close>.\<close>

definition getNextPendingTask :: "queue \<Rightarrow> task option" where
  "getNextPendingTask q =
     foldl (\<lambda>oldestPending t.
              if state t = Pending then
                (case oldestPending of
                   None \<Rightarrow> Some t
                 | Some old \<Rightarrow> if createdAt t < createdAt old then Some t else oldestPending)
              else oldestPending)
       None (map snd (tasks q))"

definition hasCapacity :: "queue \<Rightarrow> bool" where
  "hasCapacity q = (currentlyProcessing q < MAX_CONCURRENT)"

definition startProcessing :: "string \<Rightarrow> int \<Rightarrow> queue \<Rightarrow> task option \<times> queue" where
  "startProcessing taskId now q =
     (case map_of (tasks q) taskId of
        None \<Rightarrow> (None, q)
      | Some t \<Rightarrow>
          let t' = t\<lparr>state := Processing, startedAt := Some now, progress := 0\<rparr>;
              q1 = q\<lparr>tasks := AList.update taskId t' (tasks q),
                     currentlyProcessing := currentlyProcessing q + 1\<rparr>
          in (Some t', broadcastStats (broadcast ''task_started'' (PTask t') q1)))"

definition updateProgress :: "string \<Rightarrow> int \<Rightarrow> queue \<Rightarrow> queue" where
  "updateProgress taskId p q =
     (case map_of (tasks q) taskId of
        None \<Rightarrow> q
      | Some t \<Rightarrow>
          let t' = t\<lparr>progress := min 100 (max 0 p)\<rparr>;
              q1 = q\<lparr>tasks := AList.update taskId t' (tasks q)\<rparr>
          in broadcast ''task_progress'' (PProgress taskId (progress t')) q1)"

text \<open>
  \<open>updateEstimatedWaitTimes\<close>: the pending entries sorted by \<open>createdAt\<close> (stable), then
  the loop that writes \<open>position * AVERAGE_TASK_TIME\<close> into each of those objects.
\<close>

fun assign_waits :: "(string \<times> task) list \<Rightarrow> int \<Rightarrow> (string \<times> task) list \<Rightarrow> (string \<times> task) list" where
  "assign_waits [] position m = m"
| "assign_waits ((k, _) # rest) position m =
     assign_waits rest (position + 1)
       (AList.map_entry k (\<lambda>t. t\<lparr>estimatedWaitTime := position * 30000\<rparr>) m)"

definition updateEstimatedWaitTimes :: "queue \<Rightarrow> queue" where
  "updateEstimatedWaitTimes q =
     (let sortedTasks = sort_key (\<lambda>e. createdAt (snd e))
                          (filter (\<lambda>e. state (snd e) = Pending) (tasks q))
      in q\<lparr>tasks := assign_waits sortedTasks 0 (tasks q)\<rparr>)"

definition completeTask :: "string \<Rightarrow> gen_result \<Rightarrow> int \<Rightarrow> queue \<Rightarrow> task option \<times> queue" where
  "completeTask taskId res now q =
     (case map_of (tasks q) taskId of
        None \<Rightarrow> (None, q)
      | Some t \<Rightarrow>
          let t' = t\<lparr>state := Completed, completedAt := Some now, result := Some res,
                     progress := 100\<rparr>;
              q1 = q\<lparr>tasks := AList.update taskId t' (tasks q),
                     currentlyProcessing := currentlyProcessing q - 1\<rparr>
          in (Some t',
              updateEstimatedWaitTimes
                (broadcastStats (broadcast ''task_completed'' (PTask t') q1))))"

text \<open>
  JavaScript numbers are IEEE 754 doubles: every arithmetic operation returns the exact
  result rounded to the nearest double, ties to the even mantissa. \<open>to_double\<close> is that
  rounding on the rationals, for values in the normal range (from \<open>2^-1022\<close> up to
  \<open>2^1024\<close> in magnitude) and zero: the exponent \<open>ilog2\<close> of the value fixes the spacing
  \<open>2^(e - 52)\<close> of the doubles around it.
\<close>

text \<open>The number of binary digits of a positive integer.\<close>

function bit_length :: "int \<Rightarrow> int" where
  "bit_length n = (if n \<le> 0 then 0 else bit_length (n div 2) + 1)"
  by pat_completeness auto
termination
  by (relation "measure nat") auto

declare bit_length.simps [simp del]

definition pow2 :: "int \<Rightarrow> rat" where
  "pow2 e = (if 0 \<le> e then 2 ^ nat e else 1 / 2 ^ nat (- e))"

text \<open>For \<open>a > 0\<close>, the integer \<open>e\<close> with \<open>2^e \<le> a < 2^(e + 1)\<close>.\<close>

definition ilog2 :: "rat \<Rightarrow> int" where
  "ilog2 a = (if 1 \<le> a then bit_length \<lfloor>a\<rfloor> - 1 else - bit_length (\<lceil>1 / a\<rceil> - 1))"

definition round_even :: "rat \<Rightarrow> int" where
  "round_even m =
     (let r = \<lfloor>m\<rfloor>; f = m - of_int r
      in if f < 1 / 2 then r else if 1 / 2 < f then r + 1 else if even r then r else r + 1)"

definition to_double :: "rat \<Rightarrow> rat" where
  "to_double x =
     (if x = 0 then 0
      else let u = pow2 (ilog2 \<bar>x\<bar> - 52) in of_int (round_even (x / u)) * u)"

text \<open>
  \<open>calculateBackoff\<close>, with the value of \<open>Math.random()\<close>, a double in \<open>[0, 1)\<close>, as an
  argument. \<open>Math.pow(2, retryCount - 1)\<close> is \<open>1/2\<close> when \<open>retryCount\<close> is \<open>0\<close>. The
  exponential delay is exact as long as it is finite, and when it overflows to
  \<open>Infinity\<close> the \<open>Math.min\<close> caps it as it caps the exact value; the subtraction, the two
  multiplications of the jitter (left to right) and the addition are rounded.
\<close>

definition calculateBackoff :: "nat \<Rightarrow> rat \<Rightarrow> int" where
  "calculateBackoff rc rand =
     (let exponentialDelay = BASE_RETRY_DELAY * (if rc \<ge> 1 then 2 ^ (rc - 1) else 1 / 2);
          cappedDelay = min exponentialDelay MAX_RETRY_DELAY;
          jitter = to_double (to_double (cappedDelay * (1 / 4)) * to_double (rand - 1 / 2))
      in \<lfloor>to_double (cappedDelay + jitter)\<rfloor>)"

text \<open>\<open>x || dflt\<close> on a string property: a missing or empty value gives the default.\<close>

definition or_default :: "string option \<Rightarrow> string \<Rightarrow> string" where
  "or_default x dflt = (case x of None \<Rightarrow> dflt | Some s \<Rightarrow> if s = [] then dflt else s)"

definition failTask :: "string \<Rightarrow> exec_error \<Rightarrow> bool \<Rightarrow> int \<Rightarrow> rat \<Rightarrow> queue \<Rightarrow> task option \<times> queue" where
  "failTask taskId err retryable now rand q =
     (case map_of (tasks q) taskId of
        None \<Rightarrow> (None, q)
      | Some t \<Rightarrow>
          let t1 = t\<lparr>error := Some \<lparr>code = or_default (err_code err) ''UNKNOWN'',
                                   message = or_default (err_message err) ''Unknown error occurred''\<rparr>\<rparr>;
              cp = currentlyProcessing q - 1;
              shouldRetry = (retryable \<and> retryCount t1 < maxRetries t1)
          in if shouldRetry then
               let t2 = t1\<lparr>retryCount := retryCount t1 + 1\<rparr>;
                   t3 = t2\<lparr>nextRetryAt := Some (now + calculateBackoff (retryCount t2) rand)\<rparr>;
                   t4 = t3\<lparr>state := Retrying\<rparr>;
                   q1 = q\<lparr>tasks := AList.update taskId t4 (tasks q), currentlyProcessing := cp\<rparr>
               in (Some t4,
                   broadcastStats
                     (broadcast ''task_retry_scheduled''
                        (PRetryScheduled taskId (retryCount t4) (maxRetries t4) (nextRetryAt t4)
                           (error t4)) q1))
             else
               let t2 = t1\<lparr>state := Failed, completedAt := Some now\<rparr>;
                   q1 = q\<lparr>tasks := AList.update taskId t2 (tasks q), currentlyProcessing := cp\<rparr>
               in (Some t2, broadcastStats (broadcast ''task_failed'' (PTask t2) q1)))"

text \<open>\<open>task.nextRetryAt && now >= task.nextRetryAt\<close>: \<open>null\<close> and \<open>0\<close> are falsy.\<close>

definition getTasksReadyForRetry :: "int \<Rightarrow> queue \<Rightarrow> task list" where
  "getTasksReadyForRetry now q =
     filter (\<lambda>t. state t = Retrying \<and>
                 (case nextRetryAt t of None \<Rightarrow> False | Some n \<Rightarrow> n \<noteq> 0 \<and> now \<ge> n))
       (map snd (tasks q))"

definition requeueForRetry :: "string \<Rightarrow> queue \<Rightarrow> task option \<times> queue" where
  "requeueForRetry taskId q =
     (case map_of (tasks q) taskId of
        None \<Rightarrow> (None, q)
      | Some t \<Rightarrow>
          let t' = t\<lparr>state := Pending, nextRetryAt := None, error := None\<rparr>;
              q1 = q\<lparr>tasks := AList.update taskId t' (tasks q)\<rparr>
          in (Some t', broadcast ''task_requeued'' (PTask t') q1))"

definition cancelTask :: "string \<Rightarrow> queue \<Rightarrow> bool \<times> queue" where
  "cancelTask taskId q =
     (case map_of (tasks q) taskId of
        None \<Rightarrow> (False, q)
      | Some t \<Rightarrow>
          if state t = Processing then (False, q)
          else (True,
                broadcastStats
                  (broadcast ''task_cancelled'' (PCancelled taskId)
                     (q\<lparr>tasks := AList.delete taskId (tasks q)\<rparr>))))"

section \<open>SSE clients\<close>

definition addSSEClient :: "nat \<Rightarrow> queue \<Rightarrow> queue" where
  "addSSEClient res q =
     (let q1 = q\<lparr>sseClients := (if res \<in> set (sseClients q) then sseClients q
                                 else sseClients q @ [res])\<rparr>;
          q2 = sendToClient res ''queue_snapshot'' (PSnapshot (getAllTasks q1)) q1
      in sendToClient res ''queue_stats'' (PStats (getStats q2)) q2)"

text \<open>The handler installed with \<open>res.on('close', ...)\<close>.\<close>

definition closeClient :: "nat \<Rightarrow> queue \<Rightarrow> queue" where
  "closeClient res q = q\<lparr>sseClients := removeAll res (sseClients q)\<rparr>"

section \<open>The worker (src/backend/worker.js)\<close>

text \<open>
  The worker holds the queue manager and, for every call of \<open>generateImage\<close> that has
  not settled yet, the id of its task (\<open>inflight\<close>): these are the continuations of
  \<open>processNextTask\<close> waiting at \<open>await\<close>.
\<close>

record system =
  qm :: queue
  inflight :: "string list"

definition startup :: system where
  "startup = \<lparr>qm = constructor, inflight = []\<rparr>"

text \<open>The part of \<open>processNextTask\<close> that runs before the \<open>await\<close>.\<close>

definition processNextTask :: "int \<Rightarrow> system \<Rightarrow> system" where
  "processNextTask now s =
     (if \<not> hasCapacity (qm s) then s
      else case getNextPendingTask (qm s) of
             None \<Rightarrow> s
           | Some t \<Rightarrow> s\<lparr>qm := snd (startProcessing (task_id t) now (qm s)),
                         inflight := inflight s @ [task_id t]\<rparr>)"

definition checkRetries :: "int \<Rightarrow> system \<Rightarrow> system" where
  "checkRetries now s =
     s\<lparr>qm := foldl (\<lambda>q t. snd (requeueForRetry (task_id t) q)) (qm s)
                (getTasksReadyForRetry now (qm s))\<rparr>"

text \<open>
  What can happen to the running server, one event at a time (JavaScript runs each
  of them to completion): the HTTP requests that create and cancel, an SSE
  connection opening and closing, the two timers of the worker, the progress
  callback, and the settlement of a call in flight, which goes to \<open>completeTask\<close> or,
  through the \<open>catch\<close>, to \<open>failTask\<close> with \<open>error.isRetryable\<close> defaulting to true.
  A settlement of a call that is not in flight cannot happen and leaves the state as
  it is. The progress callback is left free: any id, any value, at any time.
\<close>

datatype sys_event =
    Create js_string string int
  | Cancel string
  | Subscribe nat
  | Close nat
  | Dispatch int
  | Progress string int
  | Succeed string gen_result int
  | Fail string exec_error int rat
  | CheckRetries int

fun step :: "sys_event \<Rightarrow> system \<Rightarrow> system" where
  "step (Create p uuid now) s =
     (case createTask p uuid now (qm s) of Inl _ \<Rightarrow> s | Inr (_, q') \<Rightarrow> s\<lparr>qm := q'\<rparr>)"
| "step (Cancel taskId) s = s\<lparr>qm := snd (cancelTask taskId (qm s))\<rparr>"
| "step (Subscribe res) s = s\<lparr>qm := addSSEClient res (qm s)\<rparr>"
| "step (Close res) s = s\<lparr>qm := closeClient res (qm s)\<rparr>"
| "step (Dispatch now) s = processNextTask now s"
| "step (Progress taskId p) s = s\<lparr>qm := updateProgress taskId p (qm s)\<rparr>"
| "step (Succeed taskId res now) s =
     (if taskId \<in> set (inflight s)
      then s\<lparr>qm := snd (completeTask taskId res now (qm s)),
             inflight := remove1 taskId (inflight s)\<rparr>
      else s)"
| "step (Fail taskId err now rand) s =
     (if taskId \<in> set (inflight s)
      then s\<lparr>qm := snd (failTask taskId err
                          (case isRetryable err of None \<Rightarrow> True | Some b \<Rightarrow> b) now rand (qm s)),
             inflight := remove1 taskId (inflight s)\<rparr>
      else s)"
| "step (CheckRetries now) s = checkRetries now s"

definition run :: "sys_event list \<Rightarrow> system \<Rightarrow> system" where
  "run evs s = foldl (\<lambda>s' e. step e s') s evs"

text \<open>The number of stored tasks whose state is \<open>processing\<close>.\<close>

definition processing_count :: "queue \<Rightarrow> nat" where
  "processing_count q = count_state Processing q"

text \<open>The frames one broadcast writes: one event line and one data line per client.\<close>

definition frames :: "string \<Rightarrow> payload \<Rightarrow> nat list \<Rightarrow> (nat \<times> chunk) list" where
  "frames ev d cs = concat (map (\<lambda>c. [(c, EventLine ev), (c, DataLine d)]) cs)"

section \<open>Notions used in the statements\<close>

text \<open>What has been written on one response so far.\<close>

definition received :: "nat \<Rightarrow> queue \<Rightarrow> chunk list" where
  "received res q = map snd (filter (\<lambda>w. fst w = res) (wire q))"

text \<open>The task ids a written chunk carries.\<close>

fun payload_ids :: "payload \<Rightarrow> string list" where
  "payload_ids (PTask t) = [task_id t]"
| "payload_ids (PProgress i _) = [i]"
| "payload_ids (PRetryScheduled i _ _ _ _) = [i]"
| "payload_ids (PCancelled i) = [i]"
| "payload_ids (PStats _) = []"
| "payload_ids (PSnapshot ts) = map task_id ts"

fun chunk_ids :: "chunk \<Rightarrow> string list" where
  "chunk_ids (EventLine _) = []"
| "chunk_ids (DataLine d) = payload_ids d"


text \<open>The id a creation request gives its task.\<close>

fun created_id :: "sys_event \<Rightarrow> string option" where
  "created_id (Create p uuid now) = Some (''task_'' @ take 8 uuid)"
| "created_id _ = None"

text \<open>
  The delay as the specification words it: the capped exponential delay times
  \<open>1 + 0.25 * (2 * rand - 1)\<close>, floored.
\<close>

definition spec_backoff :: "nat \<Rightarrow> rat \<Rightarrow> int" where
  "spec_backoff k rand = \<lfloor>min (2000 * 2 ^ (k - 1)) 60000 * (1 + (1 / 4) * (2 * rand - 1))\<rfloor>"

section \<open>Broadcasting while a connection is closed\<close>

text \<open>
  A response whose connection has closed stays in \<open>sseClients\<close> until its \<open>close\<close>
  handler has run. On such a response \<open>res.write\<close> of Node does not throw: it returns
  \<open>false\<close> and nothing goes out. \<open>sendToClient\<close> does not look at what \<open>res.write\<close>
  returns. Below, \<open>is_closed\<close> says which responses are in that condition, and the
  wire holds what went out; with no closed response these functions are \<open>sendToClient\<close>
  and \<open>broadcast\<close>.
\<close>

definition res_write :: "(nat \<Rightarrow> bool) \<Rightarrow> nat \<Rightarrow> chunk \<Rightarrow> queue \<Rightarrow> bool \<times> queue" where
  "res_write is_closed res c q =
     (if is_closed res then (False, q) else (True, q\<lparr>wire := wire q @ [(res, c)]\<rparr>))"

definition sendToClient_closed ::
  "(nat \<Rightarrow> bool) \<Rightarrow> nat \<Rightarrow> string \<Rightarrow> payload \<Rightarrow> queue \<Rightarrow> queue" where
  "sendToClient_closed is_closed res ev d q =
     snd (res_write is_closed res (DataLine d) (snd (res_write is_closed res (EventLine ev) q)))"

definition broadcast_closed ::
  "(nat \<Rightarrow> bool) \<Rightarrow> string \<Rightarrow> payload \<Rightarrow> queue \<Rightarrow> queue" where
  "broadcast_closed is_closed ev d q =
     foldl (\<lambda>q' client. sendToClient_closed is_closed client ev d q') q (sseClients q)"



text \<open>A sequence of \<open>failTask\<close> calls, each with its arguments.\<close>

definition failTask_calls :: "(string \<times> exec_error \<times> bool \<times> int \<times> rat) list \<Rightarrow> queue \<Rightarrow> queue" where
  "failTask_calls cs q =
     foldl (\<lambda>q' (taskId, err, retryable, now, rand). snd (failTask taskId err retryable now rand q'))
       q cs"

section \<open>Invariants\<close>

text \<open>
  What holds of every entry of the map in every state the server reaches: the key is
  the id of the task, the retry count is within its bound, the progress is a
  percentage. The keys of a \<open>Map\<close> are distinct.
\<close>

definition task_ok :: "string \<Rightarrow> task \<Rightarrow> bool" where
  "task_ok k t \<longleftrightarrow> task_id t = k \<and> retryCount t \<le> maxRetries t \<and> 0 \<le> progress t \<and> progress t \<le> 100"

definition wf_tasks :: "(string \<times> task) list \<Rightarrow> bool" where
  "wf_tasks al \<longleftrightarrow> distinct (map fst al) \<and> (\<forall>k t. map_of al k = Some t \<longrightarrow> task_ok k t)"

text \<open>
  The keys of the tasks that are processing, and what ties them to the slot counter:
  each of them has a call in flight, the counter is at least the number of calls in
  flight, and the dispatcher never lets it pass \<open>MAX_CONCURRENT\<close>.
\<close>

definition proc_keys :: "(string \<times> task) list \<Rightarrow> string set" where
  "proc_keys al = {k. map_option state (map_of al k) = Some Processing}"

definition slots_ok :: "system \<Rightarrow> bool" where
  "slots_ok s \<longleftrightarrow>
     proc_keys (tasks (qm s)) \<subseteq> set (inflight s)
     \<and> int (length (inflight s)) \<le> currentlyProcessing (qm s)
     \<and> currentlyProcessing (qm s) \<le> MAX_CONCURRENT"

text \<open>
  From \<open>q\<close> to \<open>q'\<close> the wire has only grown, and the chunks added carry no task id outside
  \<open>A\<close>. An operation on the task stored under \<open>i\<close> can only speak of \<open>i\<close> and of the id
  in that task.
\<close>

definition says_only :: "string set \<Rightarrow> queue \<Rightarrow> queue \<Rightarrow> bool" where
  "says_only A q q' \<longleftrightarrow>
     (\<exists>new. wire q' = wire q @ new \<and> (\<forall>w\<in>set new. set (chunk_ids (snd w)) \<subseteq> A))"

definition op_ids :: "string \<Rightarrow> queue \<Rightarrow> string set" where
  "op_ids i q = (case map_of (tasks q) i of None \<Rightarrow> {} | Some t \<Rightarrow> {i, task_id t})"

section \<open>Sample states\<close>

definition demo_result :: gen_result where
  "demo_result = \<lparr>imageUrl = ''https://image.pollinations.ai/prompt/cat'', generatedAt = 2000,
                   processingTime = 999, model = ''flux''\<rparr>"

definition demo_timeout :: exec_error where
  "demo_timeout = \<lparr>err_code = Some ''TIMEOUT'', err_message = Some ''Image generation timed out'',
                    isRetryable = Some True\<rparr>"

text \<open>One task and one client; the task is dispatched and completes.\<close>

definition demo_completed :: system where
  "demo_completed =
     run [Create (ascii ''a cat'') ''b1f0aaaa-3c2e-4f6a-9d1b-0123456789ab'' 1000, Subscribe 1, Dispatch 1001,
          Succeed ''task_b1f0aaaa'' demo_result 2000] startup"

text \<open>Two tasks created in the same millisecond, the one with the larger id first.\<close>

definition demo_tie :: system where
  "demo_tie =
     run [Create (ascii ''a cat'') ''b1f0aaaa-3c2e-4f6a-9d1b-0123456789ab'' 1000,
          Create (ascii ''a dog'') ''a2c4bbbb-7e1d-4b8c-8f2a-ba9876543210'' 1000] startup"

definition demo_tie_first :: task where
  "demo_tie_first =
     \<lparr>task_id = ''task_b1f0aaaa'', prompt = ascii ''a cat'', state = Pending, createdAt = 1000,
      startedAt = None, completedAt = None, result = None, error = None, retryCount = 0,
      maxRetries = 5, nextRetryAt = None, progress = 0, estimatedWaitTime = 0\<rparr>"

text \<open>The same two tasks and one client.\<close>

definition demo_watched :: system where
  "demo_watched =
     run [Create (ascii ''a cat'') ''b1f0aaaa-3c2e-4f6a-9d1b-0123456789ab'' 1000,
          Create (ascii ''a dog'') ''a2c4bbbb-7e1d-4b8c-8f2a-ba9876543210'' 1000,
          Subscribe 1] startup"


text \<open>What happens after the second task is cancelled, with late calls on its id.\<close>

definition demo_later :: "sys_event list" where
  "demo_later =
     [Dispatch 2000, Progress ''task_b1f0aaaa'' 10, Progress ''task_a2c4bbbb'' 10,
      Subscribe 2, Cancel ''task_a2c4bbbb'', CheckRetries 3000,
      Succeed ''task_b1f0aaaa'' demo_result 4000]"

text \<open>Six tasks and six dispatch cycles.\<close>

definition demo_six :: system where
  "demo_six =
     run [Create (ascii ''one'') ''00000001-3c2e-4f6a-9d1b-0123456789ab'' 1001,
          Create (ascii ''two'') ''00000002-3c2e-4f6a-9d1b-0123456789ab'' 1002,
          Create (ascii ''three'') ''00000003-3c2e-4f6a-9d1b-0123456789ab'' 1003,
          Create (ascii ''four'') ''00000004-3c2e-4f6a-9d1b-0123456789ab'' 1004,
          Create (ascii ''five'') ''00000005-3c2e-4f6a-9d1b-0123456789ab'' 1005,
          Create (ascii ''six'') ''00000006-3c2e-4f6a-9d1b-0123456789ab'' 1006,
          Dispatch 2000, Dispatch 2500, Dispatch 3000, Dispatch 3500, Dispatch 4000,
          Dispatch 4500] startup"





text \<open>One task that has failed five times and has been dispatched a sixth time.\<close>

definition demo_exhausted :: system where
  "demo_exhausted =
     run [Create (ascii ''a cat'') ''b1f0aaaa-3c2e-4f6a-9d1b-0123456789ab'' 1000,
          Dispatch 1500, Fail ''task_b1f0aaaa'' demo_timeout 2000 (1 / 2), CheckRetries 100000,
          Dispatch 100500, Fail ''task_b1f0aaaa'' demo_timeout 101000 (1 / 4), CheckRetries 200000,
          Dispatch 200500, Fail ''task_b1f0aaaa'' demo_timeout 201000 (3 / 4), CheckRetries 300000,
          Dispatch 300500, Fail ''task_b1f0aaaa'' demo_timeout 301000 0, CheckRetries 400000,
          Dispatch 400500, Fail ''task_b1f0aaaa'' demo_timeout 401000 (1 / 8), CheckRetries 500000,
          Dispatch 500500] startup"

definition demo_exhausted_task :: task where
  "demo_exhausted_task =
     \<lparr>task_id = ''task_b1f0aaaa'', prompt = ascii ''a cat'', state = Processing, createdAt = 1000,
      startedAt = Some 500500, completedAt = None, result = None, error = None, retryCount = 5,
      maxRetries = 5, nextRetryAt = None, progress = 0, estimatedWaitTime = 0\<rparr>"

text \<open>
  One task whose first attempt fails after two progress reports. The interval timer of
  that attempt is not cleared when \<open>fetch\<close> rejects (src/backend/pollinations.js), so it
  goes on reporting; the task is retried, and during the second attempt a report of the
  new call (10) is followed by one of the old timer (90).
\<close>

definition demo_progress :: system where
  "demo_progress =
     run [Create (ascii ''a cat'') ''b1f0aaaa-3c2e-4f6a-9d1b-0123456789ab'' 1000, Dispatch 1500,
          Progress ''task_b1f0aaaa'' 10, Progress ''task_b1f0aaaa'' 14,
          Fail ''task_b1f0aaaa'' demo_timeout 12000 (1 / 2), CheckRetries 20000, Dispatch 20500,
          Progress ''task_b1f0aaaa'' 10, Progress ''task_b1f0aaaa'' 90] startup"

definition demo_progress_task :: task where
  "demo_progress_task =
     \<lparr>task_id = ''task_b1f0aaaa'', prompt = ascii ''a cat'', state = Processing, createdAt = 1000,
      startedAt = Some 20500, completedAt = None, result = None, error = None, retryCount = 1,
      maxRetries = 5, nextRetryAt = None, progress = 90, estimatedWaitTime = 0\<rparr>"

text \<open>Two clients connected, nothing else.\<close>

definition demo_two_clients :: queue where
  "demo_two_clients = qm (run [Subscribe 1, Subscribe 2] startup)"

section \<open>Broadcasting only writes\<close>

lemma foldl_sendToClient:
  "foldl (\<lambda>q' client. sendToClient client ev d q') q cs = q\<lparr>wire := wire q @ frames ev d cs\<rparr>"
  by (induction cs arbitrary: q) (simp_all add: frames_def sendToClient_def)

lemma broadcast_eq: "broadcast ev d q = q\<lparr>wire := wire q @ frames ev d (sseClients q)\<rparr>"
  by (simp add: broadcast_def foldl_sendToClient)

lemma getStats_wire [simp]: "getStats (q\<lparr>wire := w\<rparr>) = getStats q"
  by (simp add: getStats_def)

lemma broadcastStats_eq:
  "broadcastStats q = q\<lparr>wire := wire q @ frames ''queue_stats'' (PStats (getStats q)) (sseClients q)\<rparr>"
  by (simp add: broadcastStats_def broadcast_eq)

lemma updateEstimatedWaitTimes_simps [simp]:
  "currentlyProcessing (updateEstimatedWaitTimes q) = currentlyProcessing q"
  "sseClients (updateEstimatedWaitTimes q) = sseClients q"
  "wire (updateEstimatedWaitTimes q) = wire q"
  by (simp_all add: updateEstimatedWaitTimes_def Let_def)

lemma keys_map_entry: "map fst (AList.map_entry k f al) = map fst al"
  by (induction al) auto

lemma keys_assign_waits: "map fst (assign_waits xs pos m) = map fst m"
  by (induction xs pos m rule: assign_waits.induct) (simp_all add: keys_map_entry)

text \<open>The loop of \<open>updateEstimatedWaitTimes\<close> changes nothing but \<open>estimatedWaitTime\<close>.\<close>

lemma map_of_assign_waits:
  "map_of (assign_waits xs pos m) k = Some t' \<Longrightarrow>
     \<exists>t w. map_of m k = Some t \<and> t' = t\<lparr>estimatedWaitTime := w\<rparr>"
proof (induction xs pos m arbitrary: t' rule: assign_waits.induct)
  case (1 position m)
  then have "map_of m k = Some t' \<and> t' = t'\<lparr>estimatedWaitTime := estimatedWaitTime t'\<rparr>" by simp
  then show ?case by blast
next
  case (2 k' uu rest position m)
  from "2.IH" [OF "2.prems" [simplified]] obtain t w where
    a: "map_of (AList.map_entry k' (\<lambda>t. t\<lparr>estimatedWaitTime := position * 30000\<rparr>) m) k = Some t"
    and b: "t' = t\<lparr>estimatedWaitTime := w\<rparr>" by blast
  from a obtain t0 where "map_of m k = Some t0"
    and "t = t0 \<or> t = t0\<lparr>estimatedWaitTime := position * 30000\<rparr>"
    by (auto simp: map_of_map_entry split: if_splits option.splits)
  with b show ?case by auto
qed

lemma map_of_assign_waits_None:
  "map_of (assign_waits xs pos m) k = None \<longleftrightarrow> map_of m k = None"
  by (metis keys_assign_waits map_of_eq_None_iff set_map)

section \<open>Every operation keeps the task map well formed\<close>

lemma broadcast_simps [simp]:
  "tasks (broadcast ev d q) = tasks q"
  "currentlyProcessing (broadcast ev d q) = currentlyProcessing q"
  "sseClients (broadcast ev d q) = sseClients q"
  "wire (broadcast ev d q) = wire q @ frames ev d (sseClients q)"
  by (simp_all add: broadcast_eq)

lemma broadcastStats_simps [simp]:
  "tasks (broadcastStats q) = tasks q"
  "currentlyProcessing (broadcastStats q) = currentlyProcessing q"
  "sseClients (broadcastStats q) = sseClients q"
  by (simp_all add: broadcastStats_def)

lemma wf_tasks_update: "wf_tasks al \<Longrightarrow> task_ok k t \<Longrightarrow> wf_tasks (AList.update k t al)"
  by (simp add: wf_tasks_def distinct_update update_conv')

lemma wf_tasks_delete: "wf_tasks al \<Longrightarrow> wf_tasks (AList.delete k al)"
  by (simp add: wf_tasks_def distinct_delete delete_conv')

lemma task_ok_wait [simp]: "task_ok k (t\<lparr>estimatedWaitTime := w\<rparr>) = task_ok k t"
  by (simp add: task_ok_def)

lemma wf_tasks_assign_waits:
  assumes "wf_tasks m"
  shows "wf_tasks (assign_waits xs pos m)"
proof -
  have "task_ok k t'" if "map_of (assign_waits xs pos m) k = Some t'" for k t'
  proof -
    from map_of_assign_waits [OF that] obtain t w
      where "map_of m k = Some t" and "t' = t\<lparr>estimatedWaitTime := w\<rparr>" by blast
    with assms show ?thesis by (simp add: wf_tasks_def del: map_of_eq_Some_iff)
  qed
  with assms show ?thesis
    by (simp add: wf_tasks_def keys_assign_waits del: map_of_eq_Some_iff)
qed

lemma wf_tasks_lookup: "wf_tasks al \<Longrightarrow> map_of al k = Some t \<Longrightarrow> task_ok k t"
  by (simp add: wf_tasks_def)

lemma tasks_updateEstimatedWaitTimes:
  "wf_tasks (tasks q) \<Longrightarrow> wf_tasks (tasks (updateEstimatedWaitTimes q))"
  by (simp add: updateEstimatedWaitTimes_def Let_def wf_tasks_assign_waits)

lemma wf_createTask:
  "wf_tasks (tasks q) \<Longrightarrow> createTask p u now q = Inr (t, q') \<Longrightarrow> wf_tasks (tasks q')"
  by (auto simp: createTask_def Let_def task_ok_def split: if_splits intro!: wf_tasks_update)

lemma wf_startProcessing:
  assumes "wf_tasks (tasks q)"
  shows "wf_tasks (tasks (snd (startProcessing i now q)))"
proof (cases "map_of (tasks q) i")
  case None
  with assms show ?thesis by (simp add: startProcessing_def)
next
  case (Some t)
  with assms have "task_ok i t" by (simp add: wf_tasks_lookup)
  with assms Some show ?thesis
    by (simp add: startProcessing_def Let_def wf_tasks_update task_ok_def)
qed

lemma wf_updateProgress:
  assumes "wf_tasks (tasks q)"
  shows "wf_tasks (tasks (updateProgress i p q))"
proof (cases "map_of (tasks q) i")
  case None
  with assms show ?thesis by (simp add: updateProgress_def)
next
  case (Some t)
  with assms have "task_ok i t" by (simp add: wf_tasks_lookup)
  with assms Some show ?thesis
    by (simp add: updateProgress_def Let_def wf_tasks_update task_ok_def)
qed

lemma wf_completeTask:
  assumes "wf_tasks (tasks q)"
  shows "wf_tasks (tasks (snd (completeTask i r now q)))"
proof (cases "map_of (tasks q) i")
  case None
  with assms show ?thesis by (simp add: completeTask_def)
next
  case (Some t)
  with assms have "task_ok i t" by (simp add: wf_tasks_lookup)
  with assms Some show ?thesis
    by (simp add: completeTask_def Let_def wf_tasks_update task_ok_def tasks_updateEstimatedWaitTimes)
qed

lemma wf_failTask:
  assumes "wf_tasks (tasks q)"
  shows "wf_tasks (tasks (snd (failTask i e b now rand q)))"
proof (cases "map_of (tasks q) i")
  case None
  with assms show ?thesis by (simp add: failTask_def)
next
  case (Some t)
  with assms have "task_ok i t" by (simp add: wf_tasks_lookup)
  with assms Some show ?thesis
    by (simp add: failTask_def Let_def wf_tasks_update task_ok_def)
qed

lemma wf_requeueForRetry:
  assumes "wf_tasks (tasks q)"
  shows "wf_tasks (tasks (snd (requeueForRetry i q)))"
proof (cases "map_of (tasks q) i")
  case None
  with assms show ?thesis by (simp add: requeueForRetry_def)
next
  case (Some t)
  with assms have "task_ok i t" by (simp add: wf_tasks_lookup)
  with assms Some show ?thesis
    by (simp add: requeueForRetry_def Let_def wf_tasks_update task_ok_def)
qed

lemma wf_cancelTask:
  "wf_tasks (tasks q) \<Longrightarrow> wf_tasks (tasks (snd (cancelTask i q)))"
  by (auto simp: cancelTask_def split: option.splits intro!: wf_tasks_delete)

lemma tasks_addSSEClient [simp]: "tasks (addSSEClient res q) = tasks q"
  by (simp add: addSSEClient_def sendToClient_def Let_def)

lemma tasks_closeClient [simp]: "tasks (closeClient res q) = tasks q"
  by (simp add: closeClient_def)

lemma wf_requeue_all:
  "wf_tasks (tasks q) \<Longrightarrow> wf_tasks (tasks (foldl (\<lambda>q t. snd (requeueForRetry (task_id t) q)) q ts))"
  by (induction ts arbitrary: q) (simp_all add: wf_requeueForRetry)

lemma wf_step: "wf_tasks (tasks (qm s)) \<Longrightarrow> wf_tasks (tasks (qm (step e s)))"
proof (cases e)
  case (Create p u now)
  then show "wf_tasks (tasks (qm s)) \<Longrightarrow> ?thesis"
    by (auto split: sum.splits dest: wf_createTask)
next
  case (Dispatch now)
  then show "wf_tasks (tasks (qm s)) \<Longrightarrow> ?thesis"
    by (auto simp: processNextTask_def wf_startProcessing split: option.splits)
next
  case (CheckRetries now)
  then show "wf_tasks (tasks (qm s)) \<Longrightarrow> ?thesis"
    by (simp add: checkRetries_def wf_requeue_all)
qed (simp_all add: wf_cancelTask wf_updateProgress wf_completeTask wf_failTask)


lemma run_Nil [simp]: "run [] s = s"
  by (simp add: run_def)

lemma run_Cons: "run (e # evs) s = run evs (step e s)"
  by (simp add: run_def)

lemma wf_run: "wf_tasks (tasks (qm s)) \<Longrightarrow> wf_tasks (tasks (qm (run evs s)))"
  by (induction evs arbitrary: s) (simp_all add: run_Cons wf_step)

lemma wf_startup: "wf_tasks (tasks (qm startup))"
  by (simp add: startup_def constructor_def wf_tasks_def)

section \<open>Trimming\<close>

lemma trim_example:
  "trim ([0xA0, 0x20] @ ascii ''a  cat'' @ [0x0A, 0xFEFF]) = ascii ''a  cat''"
  by code_simp

section \<open>Cancelling a finished task\<close>

lemma getStats_broadcast [simp]: "getStats (broadcast ev d q) = getStats q"
  by (simp add: getStats_def)

text \<open>
  C10. A task that is completed or failed can be cancelled: \<open>cancelTask\<close> returns true,
  deletes the entry and writes \<open>task_cancelled\<close> and the statistics to every client.
  It returns false exactly for an unknown id and for a task that is processing.
\<close>

theorem cancelTask_terminal:
  "(getTask taskId q = Some t \<and> (state t = Completed \<or> state t = Failed) \<longrightarrow>
      fst (cancelTask taskId q)
      \<and> tasks (snd (cancelTask taskId q)) = AList.delete taskId (tasks q)
      \<and> getTask taskId (snd (cancelTask taskId q)) = None
      \<and> wire (snd (cancelTask taskId q)) =
          wire q @ frames ''task_cancelled'' (PCancelled taskId) (sseClients q)
                 @ frames ''queue_stats''
                     (PStats (getStats (q\<lparr>tasks := AList.delete taskId (tasks q)\<rparr>)))
                     (sseClients q))
   \<and> (\<not> fst (cancelTask taskId q) \<longleftrightarrow>
        (case getTask taskId q of None \<Rightarrow> True | Some t' \<Rightarrow> state t' = Processing))"
  by (auto simp: cancelTask_def getTask_def broadcastStats_eq AList.delete_conv'
      split: option.splits)

theorem cancelTask_terminal_witness:
  "map_option state (getTask ''task_b1f0aaaa'' (qm demo_completed)) = Some Completed
   \<and> fst (cancelTask ''task_b1f0aaaa'' (qm demo_completed))
   \<and> getTask ''task_b1f0aaaa'' (snd (cancelTask ''task_b1f0aaaa'' (qm demo_completed))) = None
   \<and> received 1 (snd (cancelTask ''task_b1f0aaaa'' (qm demo_completed))) =
       received 1 (qm demo_completed) @
       [EventLine ''task_cancelled'', DataLine (PCancelled ''task_b1f0aaaa''),
        EventLine ''queue_stats'',
        DataLine (PStats \<lparr>pending = 0, processing = 0, retrying = 0, completed = 0, failed = 0,
                          total = 0\<rparr>)]"
proof -
  have st: "map_option state (getTask ''task_b1f0aaaa'' (qm demo_completed)) = Some Completed"
    by code_simp
  then obtain t where t: "getTask ''task_b1f0aaaa'' (qm demo_completed) = Some t"
    and "state t = Completed"
    by (cases "getTask ''task_b1f0aaaa'' (qm demo_completed)") auto
  then have h: "getTask ''task_b1f0aaaa'' (qm demo_completed) = Some t
      \<and> (state t = Completed \<or> state t = Failed)" by simp
  have cl: "sseClients (qm demo_completed) = [1]" by code_simp
  have tk: "AList.delete ''task_b1f0aaaa'' (tasks (qm demo_completed)) = []" by code_simp
  from cancelTask_terminal [of "''task_b1f0aaaa''" "qm demo_completed" t] h st
  show ?thesis
    by (simp add: received_def cl tk frames_def getStats_def)
qed

section \<open>The backoff delay\<close>

text \<open>
  Rounding shows in the result: when \<open>Math.random()\<close> returns the double nearest to
  \<open>0.3\<close>, the first delay is 1900, where arithmetic without rounding would give 1899.
\<close>

lemma calculateBackoff_rounded:
  "calculateBackoff 1 (5404319552844595 / 2 ^ 54) = 1900
   \<and> \<lfloor>(2000 :: rat) + 2000 * (1 / 4) * (5404319552844595 / 2 ^ 54 - 1 / 2)\<rfloor> = 1899"
  by code_simp

text \<open>
  C5. The claim gives the delay as the capped exponential delay times
  \<open>1 + 0.25 * (2 * rand - 1)\<close>, a jitter of 25 percent either way, and the comment in
  \<open>calculateBackoff\<close> says the same. The code adds \<open>cappedDelay * 0.25 * (rand - 0.5)\<close>,
  which is 12.5 percent either way. For the first retry with \<open>Math.random()\<close>
  returning \<open>0\<close> the code returns 1750 where the claimed formula gives 1500.
\<close>

theorem calculateBackoff_jitter_is_half_of_claimed:
  "calculateBackoff 1 0 = 1750 \<and> spec_backoff 1 0 = 1500"
  by code_simp

section \<open>The oldest pending task\<close>

lemma oldest_loop:
  fixes vs :: "task list"
  defines "body \<equiv> (\<lambda>oldestPending t.
              if state t = Pending then
                (case oldestPending of
                   None \<Rightarrow> Some t
                 | Some old \<Rightarrow> if createdAt t < createdAt old then Some t else oldestPending)
              else oldestPending)"
  shows "(foldl body None vs = None \<longrightarrow> (\<forall>u\<in>set vs. state u \<noteq> Pending)) \<and>
         (\<forall>t. foldl body None vs = Some t \<longrightarrow>
            state t = Pending \<and>
            (\<exists>before after. vs = before @ t # after
               \<and> (\<forall>u\<in>set before. state u = Pending \<longrightarrow> createdAt t < createdAt u)
               \<and> (\<forall>u\<in>set after. state u = Pending \<longrightarrow> createdAt t \<le> createdAt u)))"
proof (induction vs rule: rev_induct)
  case Nil
  show ?case by simp
next
  case (snoc v vs)
  show ?case
  proof (cases "state v = Pending")
    case False
    have eq: "foldl body None (vs @ [v]) = foldl body None vs"
      using False by (simp add: body_def)
    show ?thesis
    proof (intro conjI allI impI)
      assume "foldl body None (vs @ [v]) = None"
      with eq snoc.IH False show "\<forall>u\<in>set (vs @ [v]). state u \<noteq> Pending" by simp
    next
      fix t assume "foldl body None (vs @ [v]) = Some t"
      with eq snoc.IH show "state t = Pending" by simp
    next
      fix t assume "foldl body None (vs @ [v]) = Some t"
      with eq snoc.IH obtain before after where
        "vs = before @ t # after"
        "\<forall>u\<in>set before. state u = Pending \<longrightarrow> createdAt t < createdAt u"
        "\<forall>u\<in>set after. state u = Pending \<longrightarrow> createdAt t \<le> createdAt u"
        by auto
      with False have "vs @ [v] = before @ t # (after @ [v])
        \<and> (\<forall>u\<in>set before. state u = Pending \<longrightarrow> createdAt t < createdAt u)
        \<and> (\<forall>u\<in>set (after @ [v]). state u = Pending \<longrightarrow> createdAt t \<le> createdAt u)"
        by simp
      then show "\<exists>before after. vs @ [v] = before @ t # after
               \<and> (\<forall>u\<in>set before. state u = Pending \<longrightarrow> createdAt t < createdAt u)
               \<and> (\<forall>u\<in>set after. state u = Pending \<longrightarrow> createdAt t \<le> createdAt u)"
        by blast
    qed
  next
    case True
    show ?thesis
    proof (cases "foldl body None vs")
      case None
      with True have eq: "foldl body None (vs @ [v]) = Some v" by (simp add: body_def)
      from None snoc.IH have none: "\<forall>u\<in>set vs. state u \<noteq> Pending" by simp
      then have "vs @ [v] = vs @ v # []
        \<and> (\<forall>u\<in>set vs. state u = Pending \<longrightarrow> createdAt v < createdAt u)
        \<and> (\<forall>u\<in>set []. state u = Pending \<longrightarrow> createdAt v \<le> createdAt u)" by simp
      then have "\<exists>before after. vs @ [v] = before @ v # after
               \<and> (\<forall>u\<in>set before. state u = Pending \<longrightarrow> createdAt v < createdAt u)
               \<and> (\<forall>u\<in>set after. state u = Pending \<longrightarrow> createdAt v \<le> createdAt u)"
        by blast
      with eq True show ?thesis by simp
    next
      case (Some old)
      with snoc.IH obtain before after where old: "state old = Pending"
        and split: "vs = before @ old # after"
        and b: "\<forall>u\<in>set before. state u = Pending \<longrightarrow> createdAt old < createdAt u"
        and a: "\<forall>u\<in>set after. state u = Pending \<longrightarrow> createdAt old \<le> createdAt u"
        by auto
      show ?thesis
      proof (cases "createdAt v < createdAt old")
        case newer: False
        with True Some have eq: "foldl body None (vs @ [v]) = Some old" by (simp add: body_def)
        from split a b newer have "vs @ [v] = before @ old # (after @ [v])
          \<and> (\<forall>u\<in>set before. state u = Pending \<longrightarrow> createdAt old < createdAt u)
          \<and> (\<forall>u\<in>set (after @ [v]). state u = Pending \<longrightarrow> createdAt old \<le> createdAt u)"
          by simp
        then have "\<exists>before after. vs @ [v] = before @ old # after
               \<and> (\<forall>u\<in>set before. state u = Pending \<longrightarrow> createdAt old < createdAt u)
               \<and> (\<forall>u\<in>set after. state u = Pending \<longrightarrow> createdAt old \<le> createdAt u)"
          by blast
        with eq old show ?thesis by simp
      next
        case older: True
        with \<open>state v = Pending\<close> Some have eq: "foldl body None (vs @ [v]) = Some v"
          by (simp add: body_def)
        from split a b older have "\<forall>u\<in>set vs. state u = Pending \<longrightarrow> createdAt v < createdAt u"
          by auto
        then have "vs @ [v] = vs @ v # []
          \<and> (\<forall>u\<in>set vs. state u = Pending \<longrightarrow> createdAt v < createdAt u)
          \<and> (\<forall>u\<in>set []. state u = Pending \<longrightarrow> createdAt v \<le> createdAt u)" by simp
        then have "\<exists>before after. vs @ [v] = before @ v # after
               \<and> (\<forall>u\<in>set before. state u = Pending \<longrightarrow> createdAt v < createdAt u)
               \<and> (\<forall>u\<in>set after. state u = Pending \<longrightarrow> createdAt v \<le> createdAt u)"
          by blast
        with eq \<open>state v = Pending\<close> show ?thesis by simp
      qed
    qed
  qed
qed

text \<open>
  C4 (as amended). \<open>getNextPendingTask\<close> returns nothing exactly when no stored task is
  pending. Otherwise it returns a pending task whose \<open>createdAt\<close> is least among the pending
  tasks, and among the pending tasks with that least \<open>createdAt\<close> it is the one that comes
  first in the insertion order of the map: every pending task before it is strictly newer,
  every pending task after it is not older. The id plays no part in the choice.
\<close>

theorem getNextPendingTask_fifo:
  "(getNextPendingTask q = None \<longleftrightarrow> (\<forall>u\<in>set (map snd (tasks q)). state u \<noteq> Pending)) \<and>
   (\<forall>t. getNextPendingTask q = Some t \<longrightarrow>
      state t = Pending \<and>
      (\<exists>before after. map snd (tasks q) = before @ t # after
         \<and> (\<forall>u\<in>set before. state u = Pending \<longrightarrow> createdAt t < createdAt u)
         \<and> (\<forall>u\<in>set after. state u = Pending \<longrightarrow> createdAt t \<le> createdAt u)))"
proof -
  note L = oldest_loop [of "map snd (tasks q)", folded getNextPendingTask_def]
  have "getNextPendingTask q = None" if "\<forall>u\<in>set (map snd (tasks q)). state u \<noteq> Pending"
  proof (cases "getNextPendingTask q")
    case (Some t)
    with L obtain before after where "state t = Pending"
      and "map snd (tasks q) = before @ t # after" by blast
    then have "state t = Pending" and "t \<in> set (map snd (tasks q))"
      by (simp_all del: set_map)
    with that show ?thesis by blast
  qed simp
  with L show ?thesis by blast
qed

text \<open>
  The statement at the state reached by two creation requests in one millisecond.
\<close>

theorem getNextPendingTask_fifo_witness:
  "getNextPendingTask (qm demo_tie) = Some demo_tie_first \<and> state demo_tie_first = Pending \<and>
   (\<exists>before after. map snd (tasks (qm demo_tie)) = before @ demo_tie_first # after
      \<and> (\<forall>u\<in>set before. state u = Pending \<longrightarrow> createdAt demo_tie_first < createdAt u)
      \<and> (\<forall>u\<in>set after. state u = Pending \<longrightarrow> createdAt demo_tie_first \<le> createdAt u))"
proof -
  have "getNextPendingTask (qm demo_tie) = Some demo_tie_first" by code_simp
  with getNextPendingTask_fifo [of "qm demo_tie"] show ?thesis by blast
qed

text \<open>
  C4 as stated fails on a tie. Two tasks are created in the same millisecond, the first
  with the id \<open>task_b1f0aaaa\<close>, the second with \<open>task_a2c4bbbb\<close>. Both are pending with the
  same \<open>createdAt\<close>; the task selected is \<open>task_b1f0aaaa\<close>, though \<open>task_a2c4bbbb\<close> is the
  smaller id.
\<close>

theorem getNextPendingTask_tie_counterexample:
  "map_option task_id (getNextPendingTask (qm demo_tie)) = Some ''task_b1f0aaaa''
   \<and> map_option state (getTask ''task_a2c4bbbb'' (qm demo_tie)) = Some Pending
   \<and> map_option createdAt (getTask ''task_a2c4bbbb'' (qm demo_tie)) =
       map_option createdAt (getNextPendingTask (qm demo_tie))
   \<and> ''task_a2c4bbbb'' < ''task_b1f0aaaa''"
  by code_simp

section \<open>Processing slots\<close>

lemma proc_keys_update:
  "proc_keys (AList.update k v al) =
     (if state v = Processing then insert k (proc_keys al) else proc_keys al - {k})"
  by (auto simp: proc_keys_def update_conv')

lemma proc_keys_delete: "proc_keys (AList.delete k al) = proc_keys al - {k}"
  by (auto simp: proc_keys_def delete_conv')

lemma state_assign_waits:
  "map_option state (map_of (assign_waits xs pos m) k) = map_option state (map_of m k)"
proof (cases "map_of (assign_waits xs pos m) k")
  case None
  then show ?thesis by (simp add: map_of_assign_waits_None)
next
  case (Some t')
  from map_of_assign_waits [OF Some] Some show ?thesis by auto
qed

lemma proc_keys_assign_waits: "proc_keys (assign_waits xs pos m) = proc_keys m"
  by (simp add: proc_keys_def state_assign_waits)

lemma proc_keys_updateEstimatedWaitTimes [simp]:
  "proc_keys (tasks (updateEstimatedWaitTimes q)) = proc_keys (tasks q)"
  by (simp add: updateEstimatedWaitTimes_def Let_def proc_keys_assign_waits)

lemma processing_count_card:
  assumes "distinct (map fst (tasks q))"
  shows "processing_count q = card (proc_keys (tasks q))"
proof -
  let ?ps = "filter (\<lambda>e. state (snd e) = Processing) (tasks q)"
  have "processing_count q = length (map fst ?ps)"
    by (simp add: processing_count_def count_state_def filter_map comp_def)
  moreover have "distinct (map fst ?ps)" using assms by (rule distinct_map_filter)
  moreover have "set (map fst ?ps) = proc_keys (tasks q)"
  proof -
    have "(k \<in> set (map fst ?ps)) = (k \<in> proc_keys (tasks q))" for k
    proof (cases "map_of (tasks q) k")
      case None
      then have "k \<notin> fst ` set (tasks q)" by (simp add: map_of_eq_None_iff)
      with None show ?thesis by (auto simp: proc_keys_def)
    next
      case (Some t)
      with assms have "(k, t') \<in> set (tasks q) \<longleftrightarrow> t' = t" for t'
        by (auto dest: eq_key_imp_eq_value map_of_SomeD simp del: map_of_eq_Some_iff)
      with Some show ?thesis by (auto simp: proc_keys_def image_iff)
    qed
    then show ?thesis by blast
  qed
  ultimately show ?thesis by (metis distinct_card)
qed

lemma pk_createTask:
  "createTask p u now q = Inr (t, q') \<Longrightarrow>
     proc_keys (tasks q') \<subseteq> proc_keys (tasks q) \<and> currentlyProcessing q' = currentlyProcessing q"
  by (auto simp: createTask_def Let_def proc_keys_update split: if_splits)

lemma pk_startProcessing:
  "map_of (tasks q) i = Some t \<Longrightarrow>
     proc_keys (tasks (snd (startProcessing i now q))) = insert i (proc_keys (tasks q))
     \<and> currentlyProcessing (snd (startProcessing i now q)) = currentlyProcessing q + 1"
  by (simp add: startProcessing_def Let_def proc_keys_update)

lemma pk_updateProgress:
  "proc_keys (tasks (updateProgress i p q)) = proc_keys (tasks q)
   \<and> currentlyProcessing (updateProgress i p q) = currentlyProcessing q"
proof (cases "map_of (tasks q) i")
  case None
  then have "i \<notin> proc_keys (tasks q)" by (simp add: proc_keys_def)
  with None show ?thesis by (auto simp: updateProgress_def)
next
  case (Some t)
  then have "i \<in> proc_keys (tasks q) \<longleftrightarrow> state t = Processing" by (simp add: proc_keys_def)
  with Some show ?thesis by (auto simp: updateProgress_def Let_def proc_keys_update)
qed

lemma pk_completeTask:
  "proc_keys (tasks (snd (completeTask i r now q))) = proc_keys (tasks q) - {i}
   \<and> currentlyProcessing q - 1 \<le> currentlyProcessing (snd (completeTask i r now q))
   \<and> currentlyProcessing (snd (completeTask i r now q)) \<le> currentlyProcessing q"
proof (cases "map_of (tasks q) i")
  case None
  then have "i \<notin> proc_keys (tasks q)" by (simp add: proc_keys_def)
  with None show ?thesis by (auto simp: completeTask_def)
next
  case (Some t)
  then have "i \<in> proc_keys (tasks q) \<longleftrightarrow> state t = Processing" by (simp add: proc_keys_def)
  with Some show ?thesis by (auto simp: completeTask_def Let_def proc_keys_update)
qed

lemma pk_failTask:
  "proc_keys (tasks (snd (failTask i e b now rand q))) = proc_keys (tasks q) - {i}
   \<and> currentlyProcessing q - 1 \<le> currentlyProcessing (snd (failTask i e b now rand q))
   \<and> currentlyProcessing (snd (failTask i e b now rand q)) \<le> currentlyProcessing q"
proof (cases "map_of (tasks q) i")
  case None
  then have "i \<notin> proc_keys (tasks q)" by (simp add: proc_keys_def)
  with None show ?thesis by (auto simp: failTask_def)
next
  case (Some t)
  then have "i \<in> proc_keys (tasks q) \<longleftrightarrow> state t = Processing" by (simp add: proc_keys_def)
  with Some show ?thesis by (auto simp: failTask_def Let_def proc_keys_update)
qed

lemma pk_requeueForRetry:
  "proc_keys (tasks (snd (requeueForRetry i q))) = proc_keys (tasks q) - {i}
   \<and> currentlyProcessing (snd (requeueForRetry i q)) = currentlyProcessing q"
proof (cases "map_of (tasks q) i")
  case None
  then have "i \<notin> proc_keys (tasks q)" by (simp add: proc_keys_def)
  with None show ?thesis by (auto simp: requeueForRetry_def)
next
  case (Some t)
  then have "i \<in> proc_keys (tasks q) \<longleftrightarrow> state t = Processing" by (simp add: proc_keys_def)
  with Some show ?thesis by (auto simp: requeueForRetry_def Let_def proc_keys_update)
qed

lemma pk_requeue_all:
  "proc_keys (tasks (foldl (\<lambda>q t. snd (requeueForRetry (task_id t) q)) q ts)) \<subseteq> proc_keys (tasks q)
   \<and> currentlyProcessing (foldl (\<lambda>q t. snd (requeueForRetry (task_id t) q)) q ts)
       = currentlyProcessing q"
proof (induction ts arbitrary: q)
  case Nil
  show ?case by simp
next
  case (Cons t ts)
  from Cons [of "snd (requeueForRetry (task_id t) q)"] pk_requeueForRetry [of "task_id t" q]
  show ?case by auto
qed

lemma pk_cancelTask:
  "proc_keys (tasks (snd (cancelTask i q))) = proc_keys (tasks q)
   \<and> currentlyProcessing (snd (cancelTask i q)) = currentlyProcessing q"
proof (cases "map_of (tasks q) i")
  case None
  then have "i \<notin> proc_keys (tasks q)" by (simp add: proc_keys_def)
  with None show ?thesis by (auto simp: cancelTask_def proc_keys_delete)
next
  case (Some t)
  then have "i \<in> proc_keys (tasks q) \<longleftrightarrow> state t = Processing" by (simp add: proc_keys_def)
  with Some show ?thesis by (auto simp: cancelTask_def proc_keys_delete Let_def proc_keys_update)
qed

lemma cp_addSSEClient [simp]: "currentlyProcessing (addSSEClient res q) = currentlyProcessing q"
  by (simp add: addSSEClient_def sendToClient_def Let_def)

lemma cp_closeClient [simp]: "currentlyProcessing (closeClient res q) = currentlyProcessing q"
  by (simp add: closeClient_def)

text \<open>The task the dispatcher picks is stored under its own id.\<close>

lemma getNextPendingTask_stored:
  assumes "wf_tasks (tasks q)" and "getNextPendingTask q = Some t"
  shows "map_of (tasks q) (task_id t) = Some t"
proof -
  from oldest_loop [of "map snd (tasks q)", folded getNextPendingTask_def] assms(2)
  obtain before after where "map snd (tasks q) = before @ t # after" by blast
  then have "t \<in> set (map snd (tasks q))" by (simp del: set_map)
  then obtain k where k: "(k, t) \<in> set (tasks q)" by auto
  with assms(1) have m: "map_of (tasks q) k = Some t" by (simp add: wf_tasks_def)
  with assms(1) have "task_ok k t" by (rule wf_tasks_lookup)
  with m show ?thesis by (simp add: task_ok_def)
qed

lemma slots_settle:
  assumes "slots_ok s" and "i \<in> set (inflight s)"
    and "proc_keys (tasks q') = proc_keys (tasks (qm s)) - {i}"
    and "currentlyProcessing (qm s) - 1 \<le> currentlyProcessing q'"
    and "currentlyProcessing q' \<le> currentlyProcessing (qm s)"
  shows "slots_ok (s\<lparr>qm := q', inflight := remove1 i (inflight s)\<rparr>)"
proof -
  have "proc_keys (tasks q') \<subseteq> set (remove1 i (inflight s))"
  proof
    fix k assume "k \<in> proc_keys (tasks q')"
    with assms(1,3) have "k \<in> set (inflight s)" and "k \<noteq> i" by (auto simp: slots_ok_def)
    then show "k \<in> set (remove1 i (inflight s))" by simp
  qed
  moreover have "int (length (remove1 i (inflight s))) = int (length (inflight s)) - 1"
  proof -
    from assms(2) obtain n where n: "length (inflight s) = Suc n"
      by (cases "inflight s") auto
    have "length (remove1 i (inflight s)) = length (inflight s) - 1"
      using assms(2) by (simp add: length_remove1)
    with n show ?thesis by simp
  qed
  ultimately show ?thesis using assms(1,4,5) by (simp add: slots_ok_def)
qed

lemma slots_step:
  assumes "wf_tasks (tasks (qm s))" and "slots_ok s"
  shows "slots_ok (step e s)"
proof (cases e)
  case (Create p u now)
  show ?thesis
  proof (cases "createTask p u now (qm s)")
    case (Inl a)
    with Create assms show ?thesis by simp
  next
    case (Inr r)
    obtain t q' where "r = (t, q')" by (cases r)
    with Inr pk_createTask [of p u now "qm s" t q'] Create assms show ?thesis
      by (auto simp: slots_ok_def)
  qed
next
  case (Cancel i)
  with pk_cancelTask [of i "qm s"] assms show ?thesis by (simp add: slots_ok_def)
next
  case (Subscribe c)
  with assms show ?thesis by (simp add: slots_ok_def)
next
  case (Close c)
  with assms show ?thesis by (simp add: slots_ok_def)
next
  case (Dispatch now)
  show ?thesis
  proof (cases "hasCapacity (qm s) \<and> getNextPendingTask (qm s) \<noteq> None")
    case False
    with Dispatch assms show ?thesis by (auto simp: processNextTask_def)
  next
    case True
    then obtain t where t: "getNextPendingTask (qm s) = Some t" by auto
    from getNextPendingTask_stored [OF assms(1) t]
    have "map_of (tasks (qm s)) (task_id t) = Some t" .
    from pk_startProcessing [OF this, of now] True t Dispatch assms(2)
    show ?thesis by (auto simp: processNextTask_def slots_ok_def hasCapacity_def)
  qed
next
  case (Progress i p)
  with pk_updateProgress [of i p "qm s"] assms show ?thesis by (simp add: slots_ok_def)
next
  case (Succeed i r now)
  show ?thesis
  proof (cases "i \<in> set (inflight s)")
    case False
    with Succeed assms show ?thesis by simp
  next
    case True
    with Succeed slots_settle [OF assms(2) True, of "snd (completeTask i r now (qm s))"]
      pk_completeTask [of i r now "qm s"]
    show ?thesis by simp
  qed
next
  case (Fail i err now rand)
  let ?b = "case isRetryable err of None \<Rightarrow> True | Some b \<Rightarrow> b"
  show ?thesis
  proof (cases "i \<in> set (inflight s)")
    case False
    with Fail assms show ?thesis by simp
  next
    case True
    with Fail slots_settle [OF assms(2) True, of "snd (failTask i err ?b now rand (qm s))"]
      pk_failTask [of i err ?b now rand "qm s"]
    show ?thesis by simp
  qed
next
  case (CheckRetries now)
  with pk_requeue_all [of "qm s" "getTasksReadyForRetry now (qm s)"] assms show ?thesis
    by (auto simp: checkRetries_def slots_ok_def)
qed

lemma slots_run:
  "wf_tasks (tasks (qm s)) \<Longrightarrow> slots_ok s \<Longrightarrow> slots_ok (run evs s)"
  by (induction evs arbitrary: s) (simp_all add: run_Cons wf_step slots_step)

lemma slots_startup: "slots_ok startup"
  by (simp add: slots_ok_def startup_def constructor_def proc_keys_def MAX_CONCURRENT_def)

text \<open>
  C1. In every state the server reaches, by any sequence of creation and cancellation
  requests, dispatch cycles, progress reports, settlements of calls in flight (to
  \<open>completeTask\<close> or \<open>failTask\<close>), retry promotions and connections opening and
  closing, the number of stored tasks whose state is \<open>processing\<close> is at most
  \<open>MAX_CONCURRENT\<close>.
\<close>

theorem processing_never_exceeds_cap:
  "int (processing_count (qm (run evs startup))) \<le> MAX_CONCURRENT"
proof -
  let ?s = "run evs startup"
  have wf: "wf_tasks (tasks (qm ?s))" by (rule wf_run [OF wf_startup])
  have ok: "slots_ok ?s" by (rule slots_run [OF wf_startup slots_startup])
  have "processing_count (qm ?s) = card (proc_keys (tasks (qm ?s)))"
    using wf by (simp add: processing_count_card wf_tasks_def)
  also have "\<dots> \<le> card (set (inflight ?s))"
    using ok by (simp add: slots_ok_def card_mono)
  also have "\<dots> \<le> length (inflight ?s)" by (rule card_length)
  finally show ?thesis using ok by (simp add: slots_ok_def)
qed

text \<open>
  The statement at six tasks and six dispatch cycles: five tasks are processing, the
  sixth is still pending.
\<close>

theorem processing_never_exceeds_cap_witness:
  "processing_count (qm demo_six) = 5 \<and> count_state Pending (qm demo_six) = 1
   \<and> currentlyProcessing (qm demo_six) = 5
   \<and> int (processing_count (qm demo_six)) \<le> MAX_CONCURRENT"
proof -
  have a: "processing_count (qm demo_six) = 5 \<and> count_state Pending (qm demo_six) = 1
   \<and> currentlyProcessing (qm demo_six) = 5" by code_simp
  from processing_never_exceeds_cap
    [of "[Create (ascii ''one'') ''00000001-3c2e-4f6a-9d1b-0123456789ab'' 1001,
          Create (ascii ''two'') ''00000002-3c2e-4f6a-9d1b-0123456789ab'' 1002,
          Create (ascii ''three'') ''00000003-3c2e-4f6a-9d1b-0123456789ab'' 1003,
          Create (ascii ''four'') ''00000004-3c2e-4f6a-9d1b-0123456789ab'' 1004,
          Create (ascii ''five'') ''00000005-3c2e-4f6a-9d1b-0123456789ab'' 1005,
          Create (ascii ''six'') ''00000006-3c2e-4f6a-9d1b-0123456789ab'' 1006,
          Dispatch 2000, Dispatch 2500, Dispatch 3000, Dispatch 3500, Dispatch 4000,
          Dispatch 4500]", folded demo_six_def] a
  show ?thesis by simp
qed

section \<open>The queue limit\<close>














section \<open>The retry bound\<close>

lemma set_update_subset: "set (AList.update k v al) \<subseteq> insert (k, v) (set al)"
  by (induction al) auto

lemma all_update:
  assumes "\<forall>(k, t) \<in> set al. P t" and "P v"
  shows "\<forall>(k, t) \<in> set (AList.update i v al). P t"
proof -
  have "P t" if "(k, t) \<in> set (AList.update i v al)" for k t
  proof -
    from that set_update_subset [of i v al] have "(k, t) = (i, v) \<or> (k, t) \<in> set al" by blast
    with assms show ?thesis by auto
  qed
  then show ?thesis by blast
qed

lemma tasks_failTask:
  assumes "map_of (tasks q) i = Some t"
  shows "\<exists>t'. tasks (snd (failTask i err b now rand q)) = AList.update i t' (tasks q)
           \<and> maxRetries t' = maxRetries t
           \<and> retryCount t' = (if b \<and> retryCount t < maxRetries t then retryCount t + 1
                               else retryCount t)
           \<and> state t' = (if b \<and> retryCount t < maxRetries t then Retrying else Failed)"
  using assms by (cases "b \<and> retryCount t < maxRetries t") (auto simp: failTask_def Let_def)

lemma failTask_retry_bound:
  assumes "\<forall>(k, t) \<in> set (tasks q). retryCount t \<le> maxRetries t"
  shows "\<forall>(k, t) \<in> set (tasks (snd (failTask i err b now rand q))). retryCount t \<le> maxRetries t"
proof (cases "map_of (tasks q) i")
  case None
  with assms show ?thesis by (simp add: failTask_def)
next
  case (Some t)
  then have "(i, t) \<in> set (tasks q)" by (rule map_of_SomeD)
  with assms have le: "retryCount t \<le> maxRetries t" by auto
  from tasks_failTask [OF Some, of err b now rand] obtain t' where
    eq: "tasks (snd (failTask i err b now rand q)) = AList.update i t' (tasks q)"
    and "maxRetries t' = maxRetries t"
    and "retryCount t' = (if b \<and> retryCount t < maxRetries t then retryCount t + 1
                          else retryCount t)" by blast
  with le have "retryCount t' \<le> maxRetries t'" by (simp split: if_splits)
  with assms show ?thesis unfolding eq by (rule all_update)
qed

lemma failTask_calls_retry_bound:
  "\<forall>(k, t) \<in> set (tasks q). retryCount t \<le> maxRetries t \<Longrightarrow>
   \<forall>(k, t) \<in> set (tasks (failTask_calls cs q)). retryCount t \<le> maxRetries t"
proof (induction cs arbitrary: q)
  case Nil
  then show ?case by (simp add: failTask_calls_def)
next
  case (Cons c cs)
  obtain i err b now rand where c: "c = (i, err, b, now, rand)" by (cases c)
  from Cons.IH [OF failTask_retry_bound [OF Cons.prems, of i err b now rand]]
  show ?case by (simp add: failTask_calls_def c)
qed

lemma failTask_exhausted:
  assumes "getTask i q = Some t" and "retryCount t = maxRetries t"
  shows "map_option state (fst (failTask i err b now rand q)) = Some Failed
       \<and> map_option state (getTask i (snd (failTask i err b now rand q))) = Some Failed
       \<and> map_option retryCount (getTask i (snd (failTask i err b now rand q))) = Some (retryCount t)"
  using assms by (simp add: failTask_def getTask_def Let_def update_conv')

lemma stored_retry_bound:
  "wf_tasks al \<Longrightarrow> \<forall>(k, t) \<in> set al. retryCount t \<le> maxRetries t"
  by (auto simp: wf_tasks_def task_ok_def)

text \<open>
  C2. In every state the server reaches, every stored task has \<open>retryCount\<close> at most
  \<open>maxRetries\<close>. From any state where this holds, it holds again after any sequence of
  \<open>failTask\<close> calls, whatever their arguments. And \<open>failTask\<close> on a task whose
  \<open>retryCount\<close> equals \<open>maxRetries\<close> makes the task \<open>failed\<close> and leaves the count as
  it is, whether the error is retryable or not.
\<close>

theorem retryCount_never_exceeds_maxRetries:
  "(\<forall>(k, t) \<in> set (tasks (qm (run evs startup))). retryCount t \<le> maxRetries t)
   \<and> ((\<forall>(k, t) \<in> set (tasks q). retryCount t \<le> maxRetries t) \<longrightarrow>
        (\<forall>(k, t) \<in> set (tasks (failTask_calls cs q)). retryCount t \<le> maxRetries t))
   \<and> (getTask i q = Some t \<and> retryCount t = maxRetries t \<longrightarrow>
        map_option state (fst (failTask i err retryable now rand q)) = Some Failed
        \<and> map_option state (getTask i (snd (failTask i err retryable now rand q))) = Some Failed
        \<and> map_option retryCount (getTask i (snd (failTask i err retryable now rand q)))
            = Some (retryCount t))"
proof (intro conjI impI)
  show "\<forall>(k, t) \<in> set (tasks (qm (run evs startup))). retryCount t \<le> maxRetries t"
    by (rule stored_retry_bound [OF wf_run [OF wf_startup]])
next
  assume "\<forall>(k, t) \<in> set (tasks q). retryCount t \<le> maxRetries t"
  then show "\<forall>(k, t) \<in> set (tasks (failTask_calls cs q)). retryCount t \<le> maxRetries t"
    by (rule failTask_calls_retry_bound)
next
  assume a: "getTask i q = Some t \<and> retryCount t = maxRetries t"
  then have g: "getTask i q = Some t" and r: "retryCount t = maxRetries t" by simp_all
  note X = failTask_exhausted [OF g r, of err retryable now rand]
  from X show "map_option state (fst (failTask i err retryable now rand q)) = Some Failed" by simp
  from X show "map_option state (getTask i (snd (failTask i err retryable now rand q))) = Some Failed"
    by simp
  from X show "map_option retryCount (getTask i (snd (failTask i err retryable now rand q)))
            = Some (retryCount t)" by simp
qed

text \<open>
  The statement at a task that has failed five times: the sixth retryable failure makes
  it \<open>failed\<close> with \<open>retryCount\<close> still 5.
\<close>

theorem retryCount_never_exceeds_maxRetries_witness:
  "getTask ''task_b1f0aaaa'' (qm demo_exhausted) = Some demo_exhausted_task
   \<and> retryCount demo_exhausted_task = maxRetries demo_exhausted_task
   \<and> list_all (\<lambda>(k, t). retryCount t \<le> maxRetries t) (tasks (qm demo_exhausted))
   \<and> list_all (\<lambda>(k, t). retryCount t \<le> maxRetries t)
        (tasks (failTask_calls [(''task_b1f0aaaa'', demo_timeout, True, 501000, 1 / 2)]
           (qm demo_exhausted)))
   \<and> map_option state (getTask ''task_b1f0aaaa''
        (snd (failTask ''task_b1f0aaaa'' demo_timeout True 501000 (1 / 2) (qm demo_exhausted))))
       = Some Failed
   \<and> map_option retryCount (getTask ''task_b1f0aaaa''
        (snd (failTask ''task_b1f0aaaa'' demo_timeout True 501000 (1 / 2) (qm demo_exhausted))))
       = Some 5"
proof -
  have g: "getTask ''task_b1f0aaaa'' (qm demo_exhausted) = Some demo_exhausted_task" by code_simp
  have r: "retryCount demo_exhausted_task = maxRetries demo_exhausted_task"
    by (simp add: demo_exhausted_task_def)
  have five: "retryCount demo_exhausted_task = 5" by (simp add: demo_exhausted_task_def)
  note T = retryCount_never_exceeds_maxRetries
    [of "[Create (ascii ''a cat'') ''b1f0aaaa-3c2e-4f6a-9d1b-0123456789ab'' 1000,
          Dispatch 1500, Fail ''task_b1f0aaaa'' demo_timeout 2000 (1 / 2), CheckRetries 100000,
          Dispatch 100500, Fail ''task_b1f0aaaa'' demo_timeout 101000 (1 / 4), CheckRetries 200000,
          Dispatch 200500, Fail ''task_b1f0aaaa'' demo_timeout 201000 (3 / 4), CheckRetries 300000,
          Dispatch 300500, Fail ''task_b1f0aaaa'' demo_timeout 301000 0, CheckRetries 400000,
          Dispatch 400500, Fail ''task_b1f0aaaa'' demo_timeout 401000 (1 / 8), CheckRetries 500000,
          Dispatch 500500]"
      "qm demo_exhausted" "[(''task_b1f0aaaa'', demo_timeout, True, 501000, 1 / 2)]"
      "''task_b1f0aaaa''" demo_exhausted_task demo_timeout True 501000 "1 / 2",
      folded demo_exhausted_def]
  from T have a: "\<forall>(k, t) \<in> set (tasks (qm demo_exhausted)). retryCount t \<le> maxRetries t"
    by blast
  with T have b: "\<forall>(k, t) \<in> set (tasks (failTask_calls
          [(''task_b1f0aaaa'', demo_timeout, True, 501000, 1 / 2)] (qm demo_exhausted))).
          retryCount t \<le> maxRetries t" by blast
  from T g r have c: "map_option state (getTask ''task_b1f0aaaa''
        (snd (failTask ''task_b1f0aaaa'' demo_timeout True 501000 (1 / 2) (qm demo_exhausted))))
       = Some Failed"
    and d: "map_option retryCount (getTask ''task_b1f0aaaa''
        (snd (failTask ''task_b1f0aaaa'' demo_timeout True 501000 (1 / 2) (qm demo_exhausted))))
       = Some (retryCount demo_exhausted_task)" by blast+
  from g r a b c d five show ?thesis by (simp add: list_all_iff)
qed

section \<open>Progress\<close>

lemma stored_progress_range:
  "wf_tasks al \<Longrightarrow> \<forall>(k, t) \<in> set al. 0 \<le> progress t \<and> progress t \<le> 100"
  by (auto simp: wf_tasks_def task_ok_def)

lemma updateProgress_sets:
  assumes "getTask i q = Some t"
  shows "getTask i (updateProgress i p q) = Some (t\<lparr>progress := min 100 (max 0 p)\<rparr>)"
  using assms by (simp add: updateProgress_def getTask_def Let_def update_conv')

lemma startProcessing_resets:
  assumes "getTask i q = Some t"
  shows "getTask i (snd (startProcessing i now q))
         = Some (t\<lparr>state := Processing, startedAt := Some now, progress := 0\<rparr>)"
  using assms by (simp add: startProcessing_def getTask_def Let_def update_conv')

text \<open>
  C7 (as amended). In every state the server reaches, the progress of every stored task
  is an integer from 0 to 100. \<open>updateProgress\<close> sets it to the reported value clamped to
  that range and leaves the state alone; so a report that is at least the current
  progress does not lower it, and nothing else is promised about the order of the values.
  \<open>startProcessing\<close> sets the progress to 0 and the state to \<open>processing\<close>.
\<close>

theorem progress_range_and_updates:
  "(\<forall>(k, t) \<in> set (tasks (qm (run evs startup))). 0 \<le> progress t \<and> progress t \<le> 100)
   \<and> (getTask i q = Some t \<longrightarrow>
        getTask i (updateProgress i p q) = Some (t\<lparr>progress := min 100 (max 0 p)\<rparr>))
   \<and> (getTask i q = Some t \<and> progress t \<le> 100 \<and> progress t \<le> p \<longrightarrow>
        map_option state (getTask i (updateProgress i p q)) = Some (state t)
        \<and> (\<exists>t'. getTask i (updateProgress i p q) = Some t' \<and> progress t \<le> progress t'))
   \<and> (getTask i q = Some t \<longrightarrow>
        getTask i (snd (startProcessing i now q))
          = Some (t\<lparr>state := Processing, startedAt := Some now, progress := 0\<rparr>))"
proof (intro conjI impI)
  show "\<forall>(k, t) \<in> set (tasks (qm (run evs startup))). 0 \<le> progress t \<and> progress t \<le> 100"
    by (rule stored_progress_range [OF wf_run [OF wf_startup]])
next
  assume "getTask i q = Some t"
  then show "getTask i (updateProgress i p q) = Some (t\<lparr>progress := min 100 (max 0 p)\<rparr>)"
    by (rule updateProgress_sets)
next
  assume a: "getTask i q = Some t \<and> progress t \<le> 100 \<and> progress t \<le> p"
  then have u: "getTask i (updateProgress i p q) = Some (t\<lparr>progress := min 100 (max 0 p)\<rparr>)"
    by (simp add: updateProgress_sets)
  then show "map_option state (getTask i (updateProgress i p q)) = Some (state t)" by simp
  from a have "progress t \<le> progress (t\<lparr>progress := min 100 (max 0 p)\<rparr>)" by auto
  with u show "\<exists>t'. getTask i (updateProgress i p q) = Some t' \<and> progress t \<le> progress t'"
    by blast
next
  assume "getTask i q = Some t"
  then show "getTask i (snd (startProcessing i now q))
          = Some (t\<lparr>state := Processing, startedAt := Some now, progress := 0\<rparr>)"
    by (rule startProcessing_resets)
qed

text \<open>
  The statement at a task in its second attempt with progress 90: a report of 95 raises
  it to 95, and a new start resets it to 0.
\<close>

theorem progress_range_and_updates_witness:
  "getTask ''task_b1f0aaaa'' (qm demo_progress) = Some demo_progress_task
   \<and> progress demo_progress_task \<le> 100 \<and> progress demo_progress_task \<le> 95
   \<and> list_all (\<lambda>(k, t). 0 \<le> progress t \<and> progress t \<le> 100) (tasks (qm demo_progress))
   \<and> map_option progress (getTask ''task_b1f0aaaa'' (updateProgress ''task_b1f0aaaa'' 95 (qm demo_progress)))
       = Some 95
   \<and> map_option state (getTask ''task_b1f0aaaa'' (updateProgress ''task_b1f0aaaa'' 95 (qm demo_progress)))
       = Some Processing
   \<and> map_option progress (getTask ''task_b1f0aaaa''
         (snd (startProcessing ''task_b1f0aaaa'' 9000 (qm demo_progress)))) = Some 0"
proof -
  have g: "getTask ''task_b1f0aaaa'' (qm demo_progress) = Some demo_progress_task" by code_simp
  have p: "progress demo_progress_task \<le> 100 \<and> progress demo_progress_task \<le> 95"
    by (simp add: demo_progress_task_def)
  have st: "state demo_progress_task = Processing" by (simp add: demo_progress_task_def)
  note T = progress_range_and_updates
    [of "[Create (ascii ''a cat'') ''b1f0aaaa-3c2e-4f6a-9d1b-0123456789ab'' 1000, Dispatch 1500,
          Progress ''task_b1f0aaaa'' 10, Progress ''task_b1f0aaaa'' 14,
          Fail ''task_b1f0aaaa'' demo_timeout 12000 (1 / 2), CheckRetries 20000, Dispatch 20500,
          Progress ''task_b1f0aaaa'' 10, Progress ''task_b1f0aaaa'' 90]" "''task_b1f0aaaa''" "qm demo_progress"
       demo_progress_task 95 9000, folded demo_progress_def]
  from T have a: "\<forall>(k, t) \<in> set (tasks (qm demo_progress)). 0 \<le> progress t \<and> progress t \<le> 100"
    by blast
  from T g have b: "getTask ''task_b1f0aaaa'' (updateProgress ''task_b1f0aaaa'' 95 (qm demo_progress))
      = Some (demo_progress_task\<lparr>progress := min 100 (max 0 95)\<rparr>)" by blast
  from T g p have c: "map_option state (getTask ''task_b1f0aaaa''
      (updateProgress ''task_b1f0aaaa'' 95 (qm demo_progress))) = Some (state demo_progress_task)"
    by blast
  from T g have d: "getTask ''task_b1f0aaaa'' (snd (startProcessing ''task_b1f0aaaa'' 9000 (qm demo_progress)))
      = Some (demo_progress_task\<lparr>state := Processing, startedAt := Some 9000, progress := 0\<rparr>)"
    by blast
  from g p a b c d st show ?thesis by (simp add: list_all_iff)
qed

text \<open>
  C7 as stated fails: progress can go down while the task is processing. The task is in
  its second attempt with progress 90 (a report of the timer the first attempt left
  running); the next report of the second attempt, 14, sets it to 14.
\<close>

theorem progress_decreases_counterexample:
  "map_option state (getTask ''task_b1f0aaaa'' (qm demo_progress)) = Some Processing
   \<and> map_option progress (getTask ''task_b1f0aaaa'' (qm demo_progress)) = Some 90
   \<and> map_option state (getTask ''task_b1f0aaaa''
        (qm (step (Progress ''task_b1f0aaaa'' 14) demo_progress))) = Some Processing
   \<and> map_option progress (getTask ''task_b1f0aaaa''
        (qm (step (Progress ''task_b1f0aaaa'' 14) demo_progress))) = Some 14"
  by code_simp

section \<open>A closed connection does not stop the broadcast\<close>

lemma foldl_sendToClient_closed:
  "foldl (\<lambda>q' client. sendToClient_closed is_closed client ev d q') q cs
     = q\<lparr>wire := wire q @ frames ev d (filter (\<lambda>c. \<not> is_closed c) cs)\<rparr>"
  by (induction cs arbitrary: q) (simp_all add: frames_def sendToClient_closed_def res_write_def)

lemma received_frames:
  "distinct cs \<Longrightarrow>
     map snd (filter (\<lambda>w. fst w = c) (frames ev d cs))
       = (if c \<in> set cs then [EventLine ev, DataLine d] else [])"
  by (induction cs) (auto simp: frames_def)

text \<open>
  C9. A closed connection is the delivery failure: the write on it returns and nothing
  goes out. Whichever responses are closed, \<open>broadcast\<close> runs to the end of the set and
  returns the state with nothing changed but the wire, so nothing is raised into the
  operation that published; every subscribed response that is not closed receives the
  event line and the data line, and a closed one receives nothing. With no closed
  response this is \<open>broadcast\<close> itself.
\<close>

theorem broadcast_passes_closed_clients:
  "broadcast_closed is_closed ev d q
     = q\<lparr>wire := wire q @ frames ev d (filter (\<lambda>c. \<not> is_closed c) (sseClients q))\<rparr>
   \<and> (distinct (sseClients q) \<and> c \<in> set (sseClients q) \<and> \<not> is_closed c \<longrightarrow>
        received c (broadcast_closed is_closed ev d q) = received c q @ [EventLine ev, DataLine d])
   \<and> (distinct (sseClients q) \<and> is_closed c \<longrightarrow>
        received c (broadcast_closed is_closed ev d q) = received c q)
   \<and> broadcast_closed (\<lambda>c. False) ev d q = broadcast ev d q"
proof -
  have eq: "broadcast_closed is_closed ev d q
     = q\<lparr>wire := wire q @ frames ev d (filter (\<lambda>c. \<not> is_closed c) (sseClients q))\<rparr>" for is_closed
    by (simp add: broadcast_closed_def foldl_sendToClient_closed)
  have r: "received c (broadcast_closed is_closed ev d q)
      = received c q @ (if c \<in> set (sseClients q) \<and> \<not> is_closed c then [EventLine ev, DataLine d] else [])"
    if "distinct (sseClients q)"
    using that received_frames [of "filter (\<lambda>c. \<not> is_closed c) (sseClients q)" c ev d]
    by (simp add: eq received_def)
  from eq [of is_closed] r eq [of "\<lambda>c. False"] show ?thesis by (simp add: broadcast_eq)
qed

text \<open>The statement at two clients of which the first is closed.\<close>

theorem broadcast_passes_closed_clients_witness:
  "distinct (sseClients demo_two_clients) \<and> sseClients demo_two_clients = [1, 2]
   \<and> received 2 (broadcast_closed (\<lambda>c. c = 1) ''task_cancelled'' (PCancelled ''task_b1f0aaaa'')
        demo_two_clients)
       = received 2 demo_two_clients
          @ [EventLine ''task_cancelled'', DataLine (PCancelled ''task_b1f0aaaa'')]
   \<and> received 1 (broadcast_closed (\<lambda>c. c = 1) ''task_cancelled'' (PCancelled ''task_b1f0aaaa'')
        demo_two_clients)
       = received 1 demo_two_clients"
proof -
  have cl: "sseClients demo_two_clients = [1, 2]" by code_simp
  then have d: "distinct (sseClients demo_two_clients)"
    and m: "2 \<in> set (sseClients demo_two_clients)" by simp_all
  have n: "\<not> (2::nat) = 1" and y: "(1::nat) = 1" by simp_all
  from broadcast_passes_closed_clients
    [of "\<lambda>c. c = 1" "''task_cancelled''" "PCancelled ''task_b1f0aaaa''" demo_two_clients 2] d m n
  have a: "received 2 (broadcast_closed (\<lambda>c. c = 1) ''task_cancelled'' (PCancelled ''task_b1f0aaaa'')
        demo_two_clients)
       = received 2 demo_two_clients
          @ [EventLine ''task_cancelled'', DataLine (PCancelled ''task_b1f0aaaa'')]" by blast
  from broadcast_passes_closed_clients
    [of "\<lambda>c. c = 1" "''task_cancelled''" "PCancelled ''task_b1f0aaaa''" demo_two_clients 1] d y
  have b: "received 1 (broadcast_closed (\<lambda>c. c = 1) ''task_cancelled'' (PCancelled ''task_b1f0aaaa'')
        demo_two_clients)
       = received 1 demo_two_clients" by blast
  from cl d a b show ?thesis by blast
qed

section \<open>What an operation writes\<close>

lemma says_only_same: "wire q' = wire q \<Longrightarrow> says_only A q q'"
  by (simp add: says_only_def)

lemma says_only_trans: "says_only A q q' \<Longrightarrow> says_only A q' q'' \<Longrightarrow> says_only A q q''"
  unfolding says_only_def
proof (elim exE conjE)
  fix n1 n2
  assume "wire q' = wire q @ n1" "wire q'' = wire q' @ n2"
    and "\<forall>w\<in>set n1. set (chunk_ids (snd w)) \<subseteq> A" "\<forall>w\<in>set n2. set (chunk_ids (snd w)) \<subseteq> A"
  then have "wire q'' = wire q @ (n1 @ n2) \<and> (\<forall>w\<in>set (n1 @ n2). set (chunk_ids (snd w)) \<subseteq> A)"
    by auto
  then show "\<exists>new. wire q'' = wire q @ new \<and> (\<forall>w\<in>set new. set (chunk_ids (snd w)) \<subseteq> A)"
    by blast
qed

lemma says_only_mono: "says_only A q q' \<Longrightarrow> A \<subseteq> B \<Longrightarrow> says_only B q q'"
  unfolding says_only_def by blast

lemma frames_ids: "w \<in> set (frames ev d cs) \<Longrightarrow> set (chunk_ids (snd w)) \<subseteq> set (payload_ids d)"
  by (auto simp: frames_def)

lemma says_only_frames:
  "wire q' = wire q @ frames ev d cs \<Longrightarrow> set (payload_ids d) \<subseteq> A \<Longrightarrow> says_only A q q'"
  unfolding says_only_def using frames_ids by blast

lemma says_only_frames_stats:
  assumes "wire q' = wire q @ frames ev d cs @ frames ev' (PStats st) cs'"
    and "set (payload_ids d) \<subseteq> A"
  shows "says_only A q q'"
proof -
  have "set (chunk_ids (snd w)) \<subseteq> A" if "w \<in> set (frames ev d cs @ frames ev' (PStats st) cs')" for w
    using that assms(2) frames_ids [of w ev d cs] frames_ids [of w ev' "PStats st" cs'] by auto
  with assms(1) show ?thesis unfolding says_only_def by blast
qed

lemma wire_broadcastStats:
  "wire (broadcastStats q) = wire q @ frames ''queue_stats'' (PStats (getStats q)) (sseClients q)"
  by (simp add: broadcastStats_eq)

lemma says_createTask:
  "createTask p u now q = Inr (t, q') \<Longrightarrow> says_only {''task_'' @ take 8 u} q q'"
  by (auto simp: createTask_def Let_def wire_broadcastStats split: if_splits
      intro!: says_only_frames_stats)

lemma says_startProcessing: "says_only (op_ids i q) q (snd (startProcessing i now q))"
proof (cases "map_of (tasks q) i")
  case None
  then show ?thesis by (simp add: startProcessing_def says_only_same)
next
  case (Some t)
  then show ?thesis
    by (auto simp: startProcessing_def op_ids_def Let_def wire_broadcastStats intro!: says_only_frames_stats)
qed

lemma says_updateProgress: "says_only (op_ids i q) q (updateProgress i p q)"
proof (cases "map_of (tasks q) i")
  case None
  then show ?thesis by (simp add: updateProgress_def says_only_same)
next
  case (Some t)
  then show ?thesis
    by (auto simp: updateProgress_def op_ids_def Let_def intro!: says_only_frames)
qed

lemma says_completeTask: "says_only (op_ids i q) q (snd (completeTask i r now q))"
proof (cases "map_of (tasks q) i")
  case None
  then show ?thesis by (simp add: completeTask_def says_only_same)
next
  case (Some t)
  then show ?thesis
    by (auto simp: completeTask_def op_ids_def Let_def wire_broadcastStats intro!: says_only_frames_stats)
qed

lemma says_failTask: "says_only (op_ids i q) q (snd (failTask i e b now rand q))"
proof (cases "map_of (tasks q) i")
  case None
  then show ?thesis by (simp add: failTask_def says_only_same)
next
  case (Some t)
  then show ?thesis
    by (auto simp: failTask_def op_ids_def Let_def wire_broadcastStats intro!: says_only_frames_stats)
qed

lemma says_requeueForRetry: "says_only (op_ids i q) q (snd (requeueForRetry i q))"
proof (cases "map_of (tasks q) i")
  case None
  then show ?thesis by (simp add: requeueForRetry_def says_only_same)
next
  case (Some t)
  then show ?thesis
    by (auto simp: requeueForRetry_def op_ids_def Let_def intro!: says_only_frames)
qed

lemma says_cancelTask: "says_only (op_ids i q) q (snd (cancelTask i q))"
proof (cases "map_of (tasks q) i")
  case None
  then show ?thesis by (simp add: cancelTask_def says_only_same)
next
  case (Some t)
  show ?thesis
  proof (cases "state t = Processing")
    case True
    with Some show ?thesis by (simp add: cancelTask_def says_only_same)
  next
    case False
    with Some show ?thesis
      by (auto simp: cancelTask_def op_ids_def wire_broadcastStats intro!: says_only_frames_stats)
  qed
qed

lemma wire_addSSEClient:
  "wire (addSSEClient res q) =
     wire q @ [(res, EventLine ''queue_snapshot''), (res, DataLine (PSnapshot (getAllTasks q))),
               (res, EventLine ''queue_stats''), (res, DataLine (PStats (getStats q)))]"
  by (simp add: addSSEClient_def sendToClient_def Let_def getAllTasks_def getStats_def)

lemma says_addSSEClient:
  "says_only (task_id ` snd ` set (tasks q)) q (addSSEClient res q)"
  unfolding says_only_def wire_addSSEClient by (auto simp: getAllTasks_def)

lemma says_closeClient: "says_only A q (closeClient res q)"
  by (simp add: says_only_same closeClient_def)

lemma keys_update_present: "map_of al k = Some v \<Longrightarrow> fst ` set (AList.update k v' al) = fst ` set al"
  by (auto simp: dom_update dest: map_of_SomeD intro: rev_image_eqI)




lemma keys_updateEstimatedWaitTimes [simp]:
  "fst ` set (tasks (updateEstimatedWaitTimes q)) = fst ` set (tasks q)"
  using keys_assign_waits [of _ 0 "tasks q"]
  by (simp add: updateEstimatedWaitTimes_def Let_def flip: set_map)



lemma keys_requeueForRetry:
  "fst ` set (tasks (snd (requeueForRetry i q))) = fst ` set (tasks q)"
  by (auto simp: requeueForRetry_def Let_def keys_update_present split: option.splits)


text \<open>In a well-formed map an operation on a task speaks of stored ids only.\<close>

lemma op_ids_stored: "wf_tasks (tasks q) \<Longrightarrow> op_ids i q \<subseteq> fst ` set (tasks q)"
proof (cases "map_of (tasks q) i")
  case None
  then show ?thesis by (simp add: op_ids_def)
next
  case (Some t)
  assume "wf_tasks (tasks q)"
  from wf_tasks_lookup [OF this Some] have "task_id t = i" by (simp add: task_ok_def)
  moreover from Some have "i \<in> fst ` set (tasks q)" by (auto dest: map_of_SomeD intro: rev_image_eqI)
  ultimately show ?thesis using Some by (simp add: op_ids_def)
qed

lemma snapshot_ids_stored:
  assumes "wf_tasks (tasks q)"
  shows "task_id ` snd ` set (tasks q) \<subseteq> fst ` set (tasks q)"
proof
  fix j assume "j \<in> task_id ` snd ` set (tasks q)"
  then obtain k t where kt: "(k, t) \<in> set (tasks q)" and j: "j = task_id t" by auto
  with assms have "map_of (tasks q) k = Some t" by (simp add: wf_tasks_def)
  from wf_tasks_lookup [OF assms this] have "task_id t = k" by (simp add: task_ok_def)
  with kt j show "j \<in> fst ` set (tasks q)" by (auto intro: rev_image_eqI)
qed

lemma says_requeue_all:
  assumes "A = UNIV \<or> (wf_tasks (tasks q) \<and> A = fst ` set (tasks q))"
  shows "says_only A q (foldl (\<lambda>q t. snd (requeueForRetry (task_id t) q)) q ts)"
  using assms
proof (induction ts arbitrary: q)
  case Nil
  show ?case by (simp add: says_only_same)
next
  case (Cons t ts)
  let ?q1 = "snd (requeueForRetry (task_id t) q)"
  have one: "says_only A q ?q1"
    using Cons.prems says_requeueForRetry [of "task_id t" q] op_ids_stored [of q "task_id t"]
    by (auto intro: says_only_mono)
  have "A = UNIV \<or> (wf_tasks (tasks ?q1) \<and> A = fst ` set (tasks ?q1))"
    using Cons.prems by (auto simp: keys_requeueForRetry wf_requeueForRetry)
  from Cons.IH [OF this] one show ?case by (auto intro: says_only_trans)
qed


lemma says_step:
  assumes "A = UNIV \<or> (wf_tasks (tasks (qm s)) \<and> A = fst ` set (tasks (qm s)) \<union> set_option (created_id e))"
  shows "says_only A (qm s) (qm (step e s))"
proof (cases e)
  case (Create p u now)
  show ?thesis
  proof (cases "createTask p u now (qm s)")
    case (Inl a)
    with Create show ?thesis by (simp add: says_only_same)
  next
    case (Inr r)
    obtain t q' where "r = (t, q')" by (cases r)
    with Inr Create says_createTask [of p u now "qm s" t q'] assms show ?thesis
      by (auto intro: says_only_mono)
  qed
next
  case (Cancel i)
  with assms says_cancelTask [of i "qm s"] op_ids_stored [of "qm s" i] show ?thesis
    by (auto intro: says_only_mono)
next
  case (Subscribe c)
  with assms says_addSSEClient [of "qm s" c] snapshot_ids_stored [of "qm s"] show ?thesis
    by (auto intro: says_only_mono)
next
  case (Close c)
  then show ?thesis by (simp add: says_closeClient)
next
  case (Dispatch now)
  show ?thesis
  proof (cases "hasCapacity (qm s) \<and> getNextPendingTask (qm s) \<noteq> None")
    case False
    with Dispatch show ?thesis by (auto simp: processNextTask_def says_only_same)
  next
    case True
    then obtain t where t: "getNextPendingTask (qm s) = Some t" by auto
    with True Dispatch assms says_startProcessing [of "task_id t" "qm s" now]
      op_ids_stored [of "qm s" "task_id t"]
    show ?thesis by (auto simp: processNextTask_def intro: says_only_mono)
  qed
next
  case (Progress i p)
  with assms says_updateProgress [of i "qm s" p] op_ids_stored [of "qm s" i] show ?thesis
    by (auto intro: says_only_mono)
next
  case (Succeed i r now)
  with assms says_completeTask [of i "qm s" r now] op_ids_stored [of "qm s" i] show ?thesis
    by (auto intro: says_only_mono simp: says_only_same)
next
  case (Fail i err now rand)
  with assms says_failTask [of i "qm s" err _ now rand] op_ids_stored [of "qm s" i] show ?thesis
    by (auto intro: says_only_mono simp: says_only_same)
next
  case (CheckRetries now)
  with assms says_requeue_all [of A "qm s" "getTasksReadyForRetry now (qm s)"] show ?thesis
    by (auto simp: checkRetries_def)
qed


text \<open>The wire only grows.\<close>

lemma wire_grows_run: "says_only UNIV (qm s) (qm (run evs s))"
proof (induction evs arbitrary: s)
  case Nil
  show ?case by (simp add: says_only_same)
next
  case (Cons e evs)
  from says_step [of UNIV s e] Cons [of "step e s"] show ?case
    by (auto simp: run_Cons intro: says_only_trans)
qed


section \<open>Subscribing and cancelling\<close>

lemma received_grows:
  assumes "says_only A q q'"
  shows "\<exists>later. received res q' = received res q @ later"
proof -
  from assms obtain new where "wire q' = wire q @ new" by (auto simp: says_only_def)
  then have "received res q' = received res q @ map snd (filter (\<lambda>w. fst w = res) new)"
    by (simp add: received_def)
  then show ?thesis by blast
qed

lemma received_addSSEClient:
  "received res (addSSEClient res q) =
     received res q @ [EventLine ''queue_snapshot'', DataLine (PSnapshot (getAllTasks q)),
                       EventLine ''queue_stats'', DataLine (PStats (getStats q))]"
  by (simp add: received_def wire_addSSEClient)

text \<open>
  C8. \<open>addSSEClient\<close> writes four chunks on the new response and nothing else: the
  \<open>queue_snapshot\<close> event with the value of \<open>getAllTasks\<close> at that moment, then the
  \<open>queue_stats\<close> event. Whatever happens afterwards, what that response has received is
  what it had before, then these four chunks, then the rest; for a response that had
  received nothing, they are its first four chunks.
\<close>

theorem subscriber_gets_snapshot_first:
  "wire (qm (step (Subscribe res) s)) =
     wire (qm s) @ [(res, EventLine ''queue_snapshot''),
                    (res, DataLine (PSnapshot (getAllTasks (qm s)))),
                    (res, EventLine ''queue_stats''),
                    (res, DataLine (PStats (getStats (qm s))))]
   \<and> (\<exists>later. received res (qm (run evs (step (Subscribe res) s))) =
         received res (qm s) @ [EventLine ''queue_snapshot'', DataLine (PSnapshot (getAllTasks (qm s))),
                                EventLine ''queue_stats'', DataLine (PStats (getStats (qm s)))] @ later)
   \<and> (received res (qm s) = [] \<longrightarrow>
        take 4 (received res (qm (run evs (step (Subscribe res) s)))) =
          [EventLine ''queue_snapshot'', DataLine (PSnapshot (getAllTasks (qm s))),
           EventLine ''queue_stats'', DataLine (PStats (getStats (qm s)))])"
proof -
  let ?four = "[EventLine ''queue_snapshot'', DataLine (PSnapshot (getAllTasks (qm s))),
                EventLine ''queue_stats'', DataLine (PStats (getStats (qm s)))]"
  let ?s1 = "step (Subscribe res) s"
  have a: "wire (qm ?s1) =
     wire (qm s) @ [(res, EventLine ''queue_snapshot''),
                    (res, DataLine (PSnapshot (getAllTasks (qm s)))),
                    (res, EventLine ''queue_stats''),
                    (res, DataLine (PStats (getStats (qm s))))]"
    by (simp add: wire_addSSEClient)
  have r1: "received res (qm ?s1) = received res (qm s) @ ?four"
    by (simp add: received_addSSEClient)
  from received_grows [OF wire_grows_run [of ?s1 evs], of res] obtain later
    where "received res (qm (run evs ?s1)) = received res (qm ?s1) @ later" by blast
  with r1 have b: "received res (qm (run evs ?s1)) = received res (qm s) @ ?four @ later" by simp
  then have c: "take 4 (received res (qm (run evs ?s1))) = ?four" if "received res (qm s) = []"
    using that by simp
  from a b c show ?thesis by blast
qed

text \<open>
  The statement at a new client of a server with two pending tasks, followed by a
  dispatch, progress, a second client, a retry check and a completion.
\<close>

theorem subscriber_gets_snapshot_first_witness:
  "received 7 (qm demo_watched) = []
   \<and> take 4 (received 7 (qm (run demo_later (step (Subscribe 7) demo_watched)))) =
       [EventLine ''queue_snapshot'', DataLine (PSnapshot (getAllTasks (qm demo_watched))),
        EventLine ''queue_stats'',
        DataLine (PStats \<lparr>pending = 2, processing = 0, retrying = 0, completed = 0, failed = 0,
                          total = 2\<rparr>)]"
proof -
  have h: "received 7 (qm demo_watched) = []" by code_simp
  have st: "getStats (qm demo_watched) = \<lparr>pending = 2, processing = 0, retrying = 0,
      completed = 0, failed = 0, total = 2\<rparr>" by code_simp
  from subscriber_gets_snapshot_first [of 7 demo_watched demo_later] h st
  show ?thesis by simp
qed







end
